theory Spec2Isabelle
  imports Main "HOL-Library.Word"
begin

section \<open>The latency tracker: data model\<close>

text \<open>
  A shallow embedding of \<^verbatim>\<open>latency_tracker.c\<close> and of the \<^verbatim>\<open>hashtable.h\<close> branch of
  \<^verbatim>\<open>wrapper/ht.h\<close> (the branch compiled when \<^verbatim>\<open>RHASHTABLE\<close> is not defined).

  Event records live on the heap and are threaded either on the tracker's free list or on
  one bucket of its hash table, so the model keeps an explicit store \<open>mem\<close> from event
  addresses to record contents; the free list and the buckets are lists of addresses, head
  first. One thread of control runs the code. \<^verbatim>\<open>tracker->lock\<close> is a spinlock that is
  not recursive: the model records whether it is held, and taking it while it is held
  never returns.
\<close>

type_synonym u8 = "8 word"
type_synonym u32 = "32 word"
type_synonym u64 = "64 word"

text \<open>The bytes found at a pointer: \<open>p i\<close> is the byte at offset \<open>i\<close>.\<close>
type_synonym buf = "nat \<Rightarrow> u8"

text \<open>The address of a \<^verbatim>\<open>struct latency_tracker_event\<close>.\<close>
type_synonym eptr = nat

text \<open>A non-NULL \<^verbatim>\<open>void (*cb)(unsigned long ptr)\<close>, named by a number.\<close>
type_synonym cb_fn = nat

type_synonym hash_fn = "buf \<Rightarrow> u32 \<Rightarrow> u32 \<Rightarrow> u32"
type_synonym match_fn = "buf \<Rightarrow> buf \<Rightarrow> nat \<Rightarrow> int"

text \<open>
  The two ways in which a call does not return: it calls through a NULL function
  pointer, or it spins on a lock that its own thread holds.
\<close>
datatype fault = NullCall | Deadlock

text \<open>
  Modelled from the spec: \<^verbatim>\<open>enum latency_tracker_cb_flag\<close> is declared in
  \<^verbatim>\<open>latency_tracker.h\<close>, which is not part of the sources at hand. The spec lists the
  close reasons NONE, EXPLICIT\_CLOSE, TIMEOUT, GARBAGE\_COLLECTED and DUPLICATE\_KEY; the
  code names the last four \<^verbatim>\<open>LATENCY_TRACKER_CB_NORMAL\<close>, \<^verbatim>\<open>_TIMEOUT\<close>, \<^verbatim>\<open>_GC\<close> and
  \<^verbatim>\<open>_UNIQUE\<close>. \<open>LATENCY_TRACKER_CB_NONE\<close> stands for the value of a zeroed record.
\<close>
datatype latency_tracker_cb_flag =
    LATENCY_TRACKER_CB_NONE
  | LATENCY_TRACKER_CB_NORMAL
  | LATENCY_TRACKER_CB_TIMEOUT
  | LATENCY_TRACKER_CB_UNIQUE
  | LATENCY_TRACKER_CB_GC

text \<open>
  Modelled from the spec: \<^verbatim>\<open>enum latency_tracker_event_in_ret\<close> is declared in the same
  missing header; the code returns these three enumerators (the spec calls
  \<^verbatim>\<open>LATENCY_TRACKER_ERR\<close> the INVALID result).
\<close>
datatype latency_tracker_event_in_ret =
    LATENCY_TRACKER_OK
  | LATENCY_TRACKER_FULL
  | LATENCY_TRACKER_ERR

text \<open>
  \<^verbatim>\<open>struct latency_tracker_event\<close>, with the fields the two source files touch.
  \<open>timer\<close> tells whether the event's kernel timer is pending.
\<close>
record latency_tracker_event =
  timer :: bool
  hkey :: u32
  key :: buf
  start_ts :: u64
  end_ts :: u64
  thresh :: u64
  timeout :: u64
  cb :: "cb_fn option"
  priv :: nat
  cb_flag :: latency_tracker_cb_flag
  cb_out_id :: u32

text \<open>
  \<^verbatim>\<open>struct latency_tracker\<close> together with the memory it owns. \<open>lock\<close> tells whether
  \<^verbatim>\<open>tracker->lock\<close> is held and \<open>gc_timer\<close> whether \<^verbatim>\<open>tracker->timer\<close> is pending.
  \<open>cb_log\<close> is the trace of the calls made through an event's \<^verbatim>\<open>cb\<close> pointer: the
  function called, its argument, and the contents of the record at the time of the call.
  A callback is user code; the model takes it not to touch the tracker.
\<close>
record latency_tracker =
  hash_fct :: "hash_fn option"
  match_fct :: "match_fn option"
  gc_period :: u64
  gc_thresh :: u64
  tracker_priv :: nat
  gc_timer :: bool
  lock :: bool
  ht :: "eptr list list"
  events_free_list :: "eptr list"
  mem :: "eptr \<Rightarrow> latency_tracker_event"
  cb_log :: "(cb_fn \<times> eptr \<times> latency_tracker_event) list"

text \<open>
  What the two files use and do not define: \<^verbatim>\<open>LATENCY_TRACKER_MAX_KEY_SIZE\<close>
  (\<^verbatim>\<open>latency_tracker.h\<close>), the number of bits of the hash table declared in
  \<^verbatim>\<open>tracker_private.h\<close>, and the kernel's \<^verbatim>\<open>hash_min\<close>, \<^verbatim>\<open>jhash\<close> and \<^verbatim>\<open>memcmp\<close>.
  They are parameters of the model.
\<close>
record env =
  LATENCY_TRACKER_MAX_KEY_SIZE :: nat
  HASH_BITS :: nat
  hash_min :: "u32 \<Rightarrow> nat"
  jhash :: hash_fn
  memcmp :: match_fn

definition DEFAULT_MAX_ALLOC_EVENTS :: int where
  "DEFAULT_MAX_ALLOC_EVENTS = 100"

text \<open>A record as \<^verbatim>\<open>kzalloc\<close> or \<^verbatim>\<open>memset(e, 0, ...)\<close> leaves it.\<close>
definition zero_event :: latency_tracker_event where
  "zero_event = \<lparr>timer = False, hkey = 0, key = (\<lambda>_. 0), start_ts = 0, end_ts = 0,
     thresh = 0, timeout = 0, cb = None, priv = 0, cb_flag = LATENCY_TRACKER_CB_NONE,
     cb_out_id = 0\<rparr>"

section \<open>The lock\<close>

text \<open>
  \<^verbatim>\<open>spin_lock_irqsave(&tracker->lock, flags)\<close> and
  \<^verbatim>\<open>spin_unlock_irqrestore(&tracker->lock, flags)\<close>.
\<close>
definition spin_lock_irqsave :: "latency_tracker \<Rightarrow> fault + latency_tracker" where
  "spin_lock_irqsave t = (if lock t then Inl Deadlock else Inr (t\<lparr>lock := True\<rparr>))"

definition spin_unlock_irqrestore :: "latency_tracker \<Rightarrow> latency_tracker" where
  "spin_unlock_irqrestore t = t\<lparr>lock := False\<rparr>"

section \<open>The event pool\<close>

text \<open>
  \<^verbatim>\<open>list_add\<close> inserts at the head of the free list and \<^verbatim>\<open>list_last_entry\<close> takes its
  tail.
\<close>
definition latency_tracker_get_event :: "latency_tracker \<Rightarrow> eptr option \<times> latency_tracker" where
  "latency_tracker_get_event t =
     (if events_free_list t = [] then (None, t)
      else (Some (last (events_free_list t)),
            t\<lparr>events_free_list := butlast (events_free_list t)\<rparr>))"

definition latency_tracker_put_event :: "latency_tracker \<Rightarrow> eptr \<Rightarrow> latency_tracker" where
  "latency_tracker_put_event t e =
     t\<lparr>mem := (mem t)(e := zero_event), events_free_list := e # events_free_list t\<rparr>"

section \<open>The hash table\<close>

text \<open>
  The bucket of a hash value. The kernel's \<^verbatim>\<open>hash_min\<close> always answers below the table
  size, so reducing the parameter modulo the size changes nothing for it.
\<close>
definition bucket_of :: "env \<Rightarrow> latency_tracker \<Rightarrow> u32 \<Rightarrow> nat" where
  "bucket_of env t k = hash_min env k mod length (ht t)"

definition wrapper_ht_init :: "env \<Rightarrow> latency_tracker \<Rightarrow> latency_tracker" where
  "wrapper_ht_init env t = t\<lparr>ht := replicate (2 ^ HASH_BITS env) []\<rparr>"

text \<open>\<^verbatim>\<open>hash_add(tracker->ht, &s->hlist, s->hkey)\<close>: at the head of the bucket.\<close>
definition wrapper_ht_add :: "env \<Rightarrow> latency_tracker \<Rightarrow> eptr \<Rightarrow> latency_tracker" where
  "wrapper_ht_add env t s =
     (let b = bucket_of env t (hkey (mem t s))
      in t\<lparr>ht := (ht t)[b := s # ht t ! b]\<rparr>)"

text \<open>\<^verbatim>\<open>hash_del(&s->hlist)\<close> unlinks the node from the bucket it is on.\<close>
definition wrapper_ht_del :: "latency_tracker \<Rightarrow> eptr \<Rightarrow> latency_tracker" where
  "wrapper_ht_del t s = t\<lparr>ht := map (removeAll s) (ht t)\<rparr>"

definition del_timer :: "latency_tracker \<Rightarrow> eptr \<Rightarrow> latency_tracker" where
  "del_timer t s = t\<lparr>mem := (mem t)(s := (mem t s)\<lparr>timer := False\<rparr>)\<rparr>"

text \<open>
  \<^verbatim>\<open>latency_tracker_event_destroy\<close> takes the lock itself (the comment above it in the
  source asks for the lock to be held by the caller).
\<close>
definition latency_tracker_event_destroy ::
  "latency_tracker \<Rightarrow> eptr \<Rightarrow> fault + latency_tracker" where
  "latency_tracker_event_destroy t s =
     (case spin_lock_irqsave t of
        Inl e \<Rightarrow> Inl e
      | Inr t0 \<Rightarrow>
          let t1 = wrapper_ht_del t0 s;
              t2 = (if timeout (mem t1 s) > 0 then del_timer t1 s else t1)
          in Inr (spin_unlock_irqrestore (latency_tracker_put_event t2 s)))"

text \<open>\<^verbatim>\<open>if (s->cb) s->cb((unsigned long) s);\<close>\<close>
definition call_cb_if_set :: "latency_tracker \<Rightarrow> eptr \<Rightarrow> latency_tracker" where
  "call_cb_if_set t s =
     (case cb (mem t s) of
        None \<Rightarrow> t
      | Some f \<Rightarrow> t\<lparr>cb_log := cb_log t @ [(f, s, mem t s)]\<rparr>)"

text \<open>
  \<^verbatim>\<open>hash_for_each_safe\<close>: the buckets in order, each read when the loop reaches it; within
  a bucket the successor is saved before the body runs, so the body may unlink the
  current node. The body also carries the loop's local variables, and the loop ends
  where the body does not return.
\<close>
fun for_each :: "('s \<Rightarrow> eptr \<Rightarrow> fault + 's) \<Rightarrow> eptr list \<Rightarrow> 's \<Rightarrow> fault + 's" where
  "for_each body [] st = Inr st"
| "for_each body (s # ss) st =
     (case body st s of
        Inl e \<Rightarrow> Inl e
      | Inr st' \<Rightarrow> for_each body ss st')"

fun for_each_bucket ::
  "('a \<times> latency_tracker \<Rightarrow> eptr \<Rightarrow> fault + 'a \<times> latency_tracker) \<Rightarrow> nat list
     \<Rightarrow> 'a \<times> latency_tracker \<Rightarrow> fault + 'a \<times> latency_tracker" where
  "for_each_bucket body [] st = Inr st"
| "for_each_bucket body (bkt # bkts) st =
     (case for_each body (ht (snd st) ! bkt) st of
        Inl e \<Rightarrow> Inl e
      | Inr st' \<Rightarrow> for_each_bucket body bkts st')"

definition hash_for_each_safe ::
  "('a \<times> latency_tracker \<Rightarrow> eptr \<Rightarrow> fault + 'a \<times> latency_tracker) \<Rightarrow> 'a \<times> latency_tracker
     \<Rightarrow> fault + 'a \<times> latency_tracker" where
  "hash_for_each_safe body st = for_each_bucket body [0..<length (ht (snd st))] st"

definition wrapper_ht_clear :: "latency_tracker \<Rightarrow> fault + int \<times> latency_tracker" where
  "wrapper_ht_clear t =
     hash_for_each_safe
       (\<lambda>(nb, t) s. case latency_tracker_event_destroy t s of
                       Inl e \<Rightarrow> Inl e
                     | Inr t' \<Rightarrow> Inr (nb + 1, t'))
       (0, t)"

definition gc_body :: "u64 \<Rightarrow> latency_tracker \<Rightarrow> eptr \<Rightarrow> fault + latency_tracker" where
  "gc_body now t s =
     (let t1 = (if now - start_ts (mem t s) > gc_thresh t
                then call_cb_if_set
                       (t\<lparr>mem := (mem t)(s := (mem t s)\<lparr>end_ts := now,
                                            cb_flag := LATENCY_TRACKER_CB_GC\<rparr>)\<rparr>) s
                else t)
      in latency_tracker_event_destroy t1 s)"

definition wrapper_ht_gc :: "latency_tracker \<Rightarrow> u64 \<Rightarrow> fault + latency_tracker" where
  "wrapper_ht_gc t now =
     (case hash_for_each_safe
             (\<lambda>(u, t) s. case gc_body now t s of
                            Inl e \<Rightarrow> Inl e
                          | Inr t' \<Rightarrow> Inr (u, t'))
             ((), t) of
        Inl e \<Rightarrow> Inl e
      | Inr (u, t') \<Rightarrow> Inr t')"

text \<open>
  The loop of \<^verbatim>\<open>wrapper_ht_check_event\<close> over the nodes of one bucket
  (\<^verbatim>\<open>hash_for_each_possible_safe\<close>): the nodes the bucket holds when the loop starts,
  since the successor is saved before the body and the body unlinks the current node
  only. \<^verbatim>\<open>match_fct\<close> answers 0 for equal keys, as \<^verbatim>\<open>memcmp\<close> does. The loop runs with
  the lock held and releases it around \<^verbatim>\<open>latency_tracker_event_destroy\<close>.
\<close>
fun check_event_loop ::
  "buf \<Rightarrow> nat \<Rightarrow> u32 \<Rightarrow> u64 \<Rightarrow> eptr list \<Rightarrow> int \<times> latency_tracker
     \<Rightarrow> fault + (int \<times> latency_tracker)" where
  "check_event_loop k key_len out_id now [] (found, t) = Inr (found, t)"
| "check_event_loop k key_len out_id now (s # ss) (found, t) =
     (case match_fct t of
        None \<Rightarrow> Inl NullCall
      | Some m \<Rightarrow>
          if m k (key (mem t s)) key_len \<noteq> 0
          then check_event_loop k key_len out_id now ss (found, t)
          else
            let t1 = (if now - start_ts (mem t s) > thresh (mem t s)
                      then call_cb_if_set
                             (t\<lparr>mem := (mem t)(s := (mem t s)\<lparr>end_ts := now,
                                   cb_flag := LATENCY_TRACKER_CB_NORMAL,
                                   cb_out_id := out_id\<rparr>)\<rparr>) s
                      else t)
            in (case latency_tracker_event_destroy (spin_unlock_irqrestore t1) s of
                  Inl e \<Rightarrow> Inl e
                | Inr t2 \<Rightarrow>
                    (case spin_lock_irqsave t2 of
                       Inl e \<Rightarrow> Inl e
                     | Inr t3 \<Rightarrow> check_event_loop k key_len out_id now ss (1, t3))))"

definition wrapper_ht_check_event ::
  "env \<Rightarrow> latency_tracker \<Rightarrow> buf \<Rightarrow> nat \<Rightarrow> u32 \<Rightarrow> u64 \<Rightarrow> fault + (int \<times> latency_tracker)" where
  "wrapper_ht_check_event env t k key_len out_id now =
     (case spin_lock_irqsave t of
        Inl e \<Rightarrow> Inl e
      | Inr t0 \<Rightarrow>
          (case hash_fct t0 of
             None \<Rightarrow> Inl NullCall
           | Some h \<Rightarrow>
               (case check_event_loop k key_len out_id now
                       (ht t0 ! bucket_of env t0 (h k (of_nat key_len) 0)) (0, t0) of
                  Inl e \<Rightarrow> Inl e
                | Inr (found, t1) \<Rightarrow> Inr (found, spin_unlock_irqrestore t1))))"

text \<open>
  The loop of \<^verbatim>\<open>wrapper_ht_unique_check\<close>; it stops at the first match. The function
  takes no lock itself; its caller \<^verbatim>\<open>latency_tracker_event_in\<close> holds it.
\<close>
fun unique_check_loop ::
  "buf \<Rightarrow> nat \<Rightarrow> eptr list \<Rightarrow> latency_tracker \<Rightarrow> fault + latency_tracker" where
  "unique_check_loop k key_len [] t = Inr t"
| "unique_check_loop k key_len (s # ss) t =
     (case match_fct t of
        None \<Rightarrow> Inl NullCall
      | Some m \<Rightarrow>
          if m k (key (mem t s)) key_len \<noteq> 0
          then unique_check_loop k key_len ss t
          else
            latency_tracker_event_destroy
              (call_cb_if_set
                 (t\<lparr>mem := (mem t)(s := (mem t s)\<lparr>cb_flag :=
                       LATENCY_TRACKER_CB_UNIQUE\<rparr>)\<rparr>) s) s)"

definition wrapper_ht_unique_check ::
  "env \<Rightarrow> latency_tracker \<Rightarrow> buf \<Rightarrow> nat \<Rightarrow> fault + latency_tracker" where
  "wrapper_ht_unique_check env t k key_len =
     (case hash_fct t of
        None \<Rightarrow> Inl NullCall
      | Some h \<Rightarrow>
          unique_check_loop k key_len
            (ht t ! bucket_of env t (h k (of_nat key_len) 0)) t)"

section \<open>The tracker\<close>

definition latency_tracker_enable_gc :: "latency_tracker \<Rightarrow> latency_tracker" where
  "latency_tracker_enable_gc t =
     (if gc_period t = 0 \<or> gc_thresh t = 0 then t\<lparr>gc_timer := False\<rparr>
      else t\<lparr>gc_timer := True\<rparr>)"

text \<open>
  \<open>now\<close> is what \<^verbatim>\<open>trace_clock_monotonic_wrapper\<close> returns to the sweep. The sweep runs
  with the lock held.
\<close>
definition latency_tracker_gc_cb :: "latency_tracker \<Rightarrow> u64 \<Rightarrow> fault + latency_tracker" where
  "latency_tracker_gc_cb t now =
     (case spin_lock_irqsave t of
        Inl e \<Rightarrow> Inl e
      | Inr t0 \<Rightarrow>
          (case wrapper_ht_gc t0 now of
             Inl e \<Rightarrow> Inl e
           | Inr t1 \<Rightarrow> Inr (spin_unlock_irqrestore (latency_tracker_enable_gc t1))))"

definition latency_tracker_set_gc_thresh ::
  "latency_tracker \<Rightarrow> u64 \<Rightarrow> fault + latency_tracker" where
  "latency_tracker_set_gc_thresh t v =
     (case spin_lock_irqsave t of
        Inl e \<Rightarrow> Inl e
      | Inr t0 \<Rightarrow>
          Inr (spin_unlock_irqrestore (latency_tracker_enable_gc (t0\<lparr>gc_thresh := v\<rparr>))))"

definition latency_tracker_set_gc_period ::
  "latency_tracker \<Rightarrow> u64 \<Rightarrow> fault + latency_tracker" where
  "latency_tracker_set_gc_period t v =
     (case spin_lock_irqsave t of
        Inl e \<Rightarrow> Inl e
      | Inr t0 \<Rightarrow>
          Inr (spin_unlock_irqrestore (latency_tracker_enable_gc (t0\<lparr>gc_period := v\<rparr>))))"

text \<open>The tracker as \<^verbatim>\<open>kzalloc\<close> returns it: every field zero, every pointer NULL.\<close>
definition kzalloc_tracker :: latency_tracker where
  "kzalloc_tracker =
     \<lparr>hash_fct = None, match_fct = None, gc_period = 0, gc_thresh = 0, tracker_priv = 0,
      gc_timer = False, lock = False, ht = [], events_free_list = [],
      mem = (\<lambda>_. zero_event), cb_log = []\<rparr>"

text \<open>
  \<^verbatim>\<open>latency_tracker_create\<close>. \<open>allocs\<close> is the number of \<^verbatim>\<open>kzalloc\<close> calls that succeed
  and \<open>module_ok\<close> the answer of \<^verbatim>\<open>try_module_get\<close>; \<open>None\<close> is the NULL result. The
  events allocated by the loop get the addresses \<open>0\<close>, \<open>1\<close>, ... in allocation order, and
  each is added at the head of the free list; \<^verbatim>\<open>spin_lock_init\<close> leaves the lock free.
  As in the source, \<^verbatim>\<open>tracker->hash_fct\<close> and \<^verbatim>\<open>tracker->match_fct\<close> are assigned only
  in the branches for a NULL argument.
\<close>
definition latency_tracker_create ::
  "env \<Rightarrow> nat \<Rightarrow> bool \<Rightarrow> match_fn option \<Rightarrow> hash_fn option \<Rightarrow> int \<Rightarrow> u64 \<Rightarrow> u64 \<Rightarrow> nat
     \<Rightarrow> latency_tracker option" where
  "latency_tracker_create env allocs module_ok match_arg hash_arg max_events period thr pr =
     (if allocs = 0 then None
      else
        let t1 = (if hash_arg = None then kzalloc_tracker\<lparr>hash_fct := Some (jhash env)\<rparr>
                  else kzalloc_tracker);
            t2 = (if match_arg = None then t1\<lparr>match_fct := Some (memcmp env)\<rparr> else t1);
            n = (if max_events = 0 then DEFAULT_MAX_ALLOC_EVENTS else max_events);
            t3 = t2\<lparr>gc_period := period, gc_thresh := thr, tracker_priv := pr\<rparr>;
            t4 = wrapper_ht_init env ((latency_tracker_enable_gc t3)\<lparr>lock := False\<rparr>);
            t5 = t4\<lparr>events_free_list := []\<rparr>
        in if allocs - 1 < nat n then None
           else
             let t6 = foldl (\<lambda>t i. t\<lparr>events_free_list := i # events_free_list t\<rparr>) t5
                        [0..<nat n]
             in if \<not> module_ok then None else Some t6)"

text \<open>
  \<^verbatim>\<open>latency_tracker_destroy\<close> frees the tracker; what remains is the count it prints and
  the state in which \<^verbatim>\<open>wrapper_ht_clear\<close> left the events before the free list is freed
  (under the lock, which is taken only after \<^verbatim>\<open>wrapper_ht_clear\<close> has returned).
\<close>
definition latency_tracker_destroy :: "latency_tracker \<Rightarrow> fault + int \<times> latency_tracker" where
  "latency_tracker_destroy t =
     (case wrapper_ht_clear (t\<lparr>gc_timer := False\<rparr>) of
        Inl e \<Rightarrow> Inl e
      | Inr (nb, t1) \<Rightarrow>
          (case spin_lock_irqsave t1 of
             Inl e \<Rightarrow> Inl e
           | Inr t2 \<Rightarrow> Inr (nb, spin_unlock_irqrestore t2)))"

text \<open>
  The timer function of an event; it takes no lock and calls \<^verbatim>\<open>data->cb\<close> without a
  NULL test.
\<close>
definition latency_tracker_timeout_cb :: "latency_tracker \<Rightarrow> eptr \<Rightarrow> fault + latency_tracker" where
  "latency_tracker_timeout_cb t s =
     (let t1 = del_timer t s;
          t2 = t1\<lparr>mem := (mem t1)(s := (mem t1 s)\<lparr>cb_flag := LATENCY_TRACKER_CB_TIMEOUT,
                                                    timeout := 0\<rparr>)\<rparr>
      in case cb (mem t2 s) of
           None \<Rightarrow> Inl NullCall
         | Some f \<Rightarrow> Inr (t2\<lparr>cb_log := cb_log t2 @ [(f, s, mem t2 s)]\<rparr>))"

text \<open>\<^verbatim>\<open>memcpy(s->key, key, key_len)\<close> into the key array of the record.\<close>
definition memcpy :: "buf \<Rightarrow> buf \<Rightarrow> nat \<Rightarrow> buf" where
  "memcpy dst src n = (\<lambda>i. if i < n then src i else dst i)"

text \<open>
  \<^verbatim>\<open>latency_tracker_event_in\<close>. The tracker pointer may be NULL (\<open>None\<close>); \<open>now\<close> is the
  clock value read for \<^verbatim>\<open>start_ts\<close>. After the two argument checks everything runs with
  the lock held, the duplicate-key check included.
\<close>
definition latency_tracker_event_in ::
  "env \<Rightarrow> latency_tracker option \<Rightarrow> buf \<Rightarrow> nat \<Rightarrow> u64 \<Rightarrow> cb_fn option \<Rightarrow> u64 \<Rightarrow> u32 \<Rightarrow> nat
     \<Rightarrow> u64 \<Rightarrow> fault + (latency_tracker_event_in_ret \<times> latency_tracker option)" where
  "latency_tracker_event_in env tracker k key_len thr f tmo unique pr now =
     (case tracker of
        None \<Rightarrow> Inr (LATENCY_TRACKER_ERR, None)
      | Some t \<Rightarrow>
          if key_len > LATENCY_TRACKER_MAX_KEY_SIZE env
          then Inr (LATENCY_TRACKER_ERR, Some t)
          else
            (case spin_lock_irqsave t of
               Inl e \<Rightarrow> Inl e
             | Inr t0 \<Rightarrow>
                 (case (if unique \<noteq> 0 then wrapper_ht_unique_check env t0 k key_len
                        else Inr t0) of
                    Inl e \<Rightarrow> Inl e
                  | Inr t1 \<Rightarrow>
                      (case latency_tracker_get_event t1 of
                         (None, t2) \<Rightarrow>
                           Inr (LATENCY_TRACKER_FULL, Some (spin_unlock_irqrestore t2))
                       | (Some s, t2) \<Rightarrow>
                           (case hash_fct t2 of
                              None \<Rightarrow> Inl NullCall
                            | Some h \<Rightarrow>
                                let e = (mem t2 s)\<lparr>hkey := h k (of_nat key_len) 0,
                                          key := memcpy (key (mem t2 s)) k key_len,
                                          start_ts := now, thresh := thr, timeout := tmo,
                                          cb := f, priv := pr\<rparr>;
                                    e' = (if tmo > 0 then e\<lparr>timer := True\<rparr> else e);
                                    t3 = t2\<lparr>mem := (mem t2)(s := e')\<rparr>
                                in Inr (LATENCY_TRACKER_OK,
                                        Some (spin_unlock_irqrestore
                                                (wrapper_ht_add env t3 s))))))))"

text \<open>
  \<^verbatim>\<open>latency_tracker_event_out\<close>: 0 when an event was found, -1 otherwise; \<open>now\<close> is the
  clock value read at entry.
\<close>
definition latency_tracker_event_out ::
  "env \<Rightarrow> latency_tracker option \<Rightarrow> buf \<Rightarrow> nat \<Rightarrow> u32 \<Rightarrow> u64
     \<Rightarrow> fault + (int \<times> latency_tracker option)" where
  "latency_tracker_event_out env tracker k key_len out_id now =
     (case tracker of
        None \<Rightarrow> Inr (- 1, None)
      | Some t \<Rightarrow>
          (case wrapper_ht_check_event env t k key_len out_id now of
             Inl e \<Rightarrow> Inl e
           | Inr (found, t') \<Rightarrow> Inr (if found = 0 then - 1 else 0, Some t')))"

definition latency_tracker_get_priv :: "latency_tracker \<Rightarrow> nat" where
  "latency_tracker_get_priv t = tracker_priv t"

section \<open>Notions used to state the properties\<close>

text \<open>
  In a well-formed tracker, as a caller finds it between two operations, the lock is
  free, the table has a bucket, and every event record is threaded at most once: on one
  bucket or on the free list, never twice and never on both.
\<close>
definition tracker_inv :: "latency_tracker \<Rightarrow> bool" where
  "tracker_inv t \<longleftrightarrow>
     \<not> lock t \<and> ht t \<noteq> [] \<and> distinct (concat (ht t) @ events_free_list t)"

text \<open>
  What \<^verbatim>\<open>latency_tracker_event_destroy\<close> does to the record \<open>s\<close> between taking and
  releasing the lock: unlinked from the table, zeroed, and pushed on the free list.
\<close>
definition retire :: "latency_tracker \<Rightarrow> eptr \<Rightarrow> latency_tracker" where
  "retire t s =
     t\<lparr>ht := map (removeAll s) (ht t), mem := (mem t)(s := zero_event),
       events_free_list := s # events_free_list t\<rparr>"

text \<open>
  The state after the records \<open>ss\<close> have been retired in this order.
\<close>
definition retire_all :: "eptr list \<Rightarrow> latency_tracker \<Rightarrow> latency_tracker" where
  "retire_all ss t =
     t\<lparr>ht := map (filter (\<lambda>x. x \<notin> set ss)) (ht t),
       mem := (\<lambda>x. if x \<in> set ss then zero_event else mem t x),
       events_free_list := rev ss @ events_free_list t\<rparr>"

text \<open>The events of a bucket whose key \<^verbatim>\<open>match_fct\<close> finds equal to \<open>k\<close>.\<close>
definition matching :: "match_fn \<Rightarrow> buf \<Rightarrow> nat \<Rightarrow> latency_tracker \<Rightarrow> eptr list \<Rightarrow> eptr list" where
  "matching m k key_len t ss = filter (\<lambda>s. m k (key (mem t s)) key_len = 0) ss"

text \<open>
  The callback call that closing the event \<open>s\<close> at time \<open>now\<close> adds to the trace: one
  call when the event is older than its threshold and has a callback, none otherwise.
\<close>
definition close_entry ::
  "u32 \<Rightarrow> u64 \<Rightarrow> latency_tracker \<Rightarrow> eptr \<Rightarrow> (cb_fn \<times> eptr \<times> latency_tracker_event) list" where
  "close_entry out_id now t s =
     (if now - start_ts (mem t s) > thresh (mem t s)
      then (case cb (mem t s) of
              None \<Rightarrow> []
            | Some f \<Rightarrow> [(f, s, (mem t s)\<lparr>end_ts := now, cb_flag := LATENCY_TRACKER_CB_NORMAL,
                                      cb_out_id := out_id\<rparr>)])
      else [])"

text \<open>The same for the sweep of the garbage collector.\<close>
definition gc_entry ::
  "u64 \<Rightarrow> latency_tracker \<Rightarrow> eptr \<Rightarrow> (cb_fn \<times> eptr \<times> latency_tracker_event) list" where
  "gc_entry now t s =
     (if now - start_ts (mem t s) > gc_thresh t
      then (case cb (mem t s) of
              None \<Rightarrow> []
            | Some f \<Rightarrow> [(f, s, (mem t s)\<lparr>end_ts := now, cb_flag := LATENCY_TRACKER_CB_GC\<rparr>)])
      else [])"

text \<open>One visit of the sweep when the lock is free: the callback call, then the retirement.\<close>
definition gc_retire :: "u64 \<Rightarrow> latency_tracker \<Rightarrow> eptr \<Rightarrow> latency_tracker" where
  "gc_retire now t s = (retire t s)\<lparr>cb_log := cb_log t @ gc_entry now t s\<rparr>"

text \<open>The same for the eviction of a duplicate key, and the state the eviction leaves.\<close>
definition unique_entry ::
  "latency_tracker \<Rightarrow> eptr \<Rightarrow> (cb_fn \<times> eptr \<times> latency_tracker_event) list" where
  "unique_entry t s =
     (case cb (mem t s) of
        None \<Rightarrow> []
      | Some f \<Rightarrow> [(f, s, (mem t s)\<lparr>cb_flag := LATENCY_TRACKER_CB_UNIQUE\<rparr>)])"

definition evict :: "latency_tracker \<Rightarrow> eptr \<Rightarrow> latency_tracker" where
  "evict t s = (retire_all [s] t)\<lparr>cb_log := cb_log t @ unique_entry t s\<rparr>"

text \<open>
  From \<open>t\<close> to \<open>t'\<close> records only moved from the table to the free list, and none was
  lost or duplicated.
\<close>
definition retires_only :: "latency_tracker \<Rightarrow> latency_tracker \<Rightarrow> bool" where
  "retires_only t t' \<longleftrightarrow>
     tracker_inv t'
     \<and> set (events_free_list t) \<subseteq> set (events_free_list t')
     \<and> set (concat (ht t')) \<subseteq> set (concat (ht t))
     \<and> set (concat (ht t')) \<union> set (events_free_list t')
         = set (concat (ht t)) \<union> set (events_free_list t)"

text \<open>
  From \<open>t\<close> to \<open>t'\<close> no record was retired a second time: no event entered the table,
  and every record that was on the free list of \<open>t\<close> is still off the table and on the
  free list of \<open>t'\<close> exactly once (a second \<^verbatim>\<open>latency_tracker_put_event\<close> would push it
  again).
\<close>
definition stays_retired :: "latency_tracker \<Rightarrow> latency_tracker \<Rightarrow> bool" where
  "stays_retired t t' \<longleftrightarrow>
     tracker_inv t'
     \<and> set (concat (ht t')) \<subseteq> set (concat (ht t))
     \<and> (\<forall>x \<in> set (events_free_list t).
           x \<notin> set (concat (ht t')) \<and> count_list (events_free_list t') x = 1)"

text \<open>The arguments of one call of \<^verbatim>\<open>latency_tracker_event_in\<close> and the clock it reads.\<close>
record event_in_call =
  c_key :: buf
  c_key_len :: nat
  c_thresh :: u64
  c_cb :: "cb_fn option"
  c_timeout :: u64
  c_unique :: u32
  c_priv :: nat
  c_now :: u64

definition event_in_call :: "env \<Rightarrow> latency_tracker \<Rightarrow> event_in_call
    \<Rightarrow> fault + (latency_tracker_event_in_ret \<times> latency_tracker option)" where
  "event_in_call env t c =
     latency_tracker_event_in env (Some t) (c_key c) (c_key_len c) (c_thresh c) (c_cb c)
       (c_timeout c) (c_unique c) (c_priv c) (c_now c)"

text \<open>
  An open with these arguments finds a duplicate to evict (or faults) on its way:
  \<open>unique\<close> is set and \<^verbatim>\<open>wrapper_ht_unique_check\<close>, run under the lock as
  \<^verbatim>\<open>latency_tracker_event_in\<close> runs it, does not hand the tracker back as it was.
\<close>
definition evicts :: "env \<Rightarrow> latency_tracker \<Rightarrow> buf \<Rightarrow> nat \<Rightarrow> u32 \<Rightarrow> bool" where
  "evicts env t k key_len unique \<longleftrightarrow>
     unique \<noteq> 0
     \<and> wrapper_ht_unique_check env (t\<lparr>lock := True\<rparr>) k key_len \<noteq> Inr (t\<lparr>lock := True\<rparr>)"

text \<open>
  A run of opens with nothing retired in between: each call evicts nothing and returns
  \<^verbatim>\<open>LATENCY_TRACKER_OK\<close>. The result is the tracker after the last call.
\<close>
fun opens_ok :: "env \<Rightarrow> latency_tracker \<Rightarrow> event_in_call list \<Rightarrow> latency_tracker option" where
  "opens_ok env t [] = Some t"
| "opens_ok env t (c # cs) =
     (if evicts env t (c_key c) (c_key_len c) (c_unique c) then None
      else case event_in_call env t c of
             Inr (LATENCY_TRACKER_OK, Some t') \<Rightarrow> opens_ok env t' cs
           | _ \<Rightarrow> None)"

section \<open>Example inputs\<close>

text \<open>
  A small environment used to run the model on concrete inputs: keys of at most 16
  bytes, a table of two buckets, and toy stand-ins for the kernel functions that look at
  the first byte of a key only (the hash is 1 for a first byte 1 and 0 otherwise).
\<close>
definition env0 :: env where
  "env0 = \<lparr>LATENCY_TRACKER_MAX_KEY_SIZE = 16, HASH_BITS = 1, hash_min = unat,
     jhash = (\<lambda>k n i. if k 0 = 1 then 1 else 0), memcmp = (\<lambda>a b n. if a 0 = b 0 then 0 else 1)\<rparr>"

definition key1 :: buf where
  "key1 = (\<lambda>_. 1)"

definition key2 :: buf where
  "key2 = (\<lambda>_. 2)"

text \<open>Functions a caller might pass to \<^verbatim>\<open>latency_tracker_create\<close>.\<close>
definition user_hash :: hash_fn where
  "user_hash = (\<lambda>k n i. 5)"

definition user_match :: match_fn where
  "user_match = (\<lambda>a b n. 0)"

text \<open>
  An event record as \<^verbatim>\<open>latency_tracker_event_in\<close> fills it for a four-byte key, no
  timeout and the callback \<open>f\<close>; and a tracker using the environment's default functions.
\<close>
definition example_event :: "buf \<Rightarrow> u32 \<Rightarrow> u64 \<Rightarrow> u64 \<Rightarrow> cb_fn \<Rightarrow> latency_tracker_event" where
  "example_event k h start thr f =
     \<lparr>timer = False, hkey = h, key = memcpy (\<lambda>_. 0) k 4, start_ts = start, end_ts = 0,
      thresh = thr, timeout = 0, cb = Some f, priv = 0, cb_flag = LATENCY_TRACKER_CB_NONE,
      cb_out_id = 0\<rparr>"

definition example_tracker ::
  "u64 \<Rightarrow> u64 \<Rightarrow> eptr list list \<Rightarrow> eptr list \<Rightarrow> (eptr \<Rightarrow> latency_tracker_event)
     \<Rightarrow> (cb_fn \<times> eptr \<times> latency_tracker_event) list \<Rightarrow> latency_tracker" where
  "example_tracker period thr buckets free m log =
     \<lparr>hash_fct = Some (jhash env0), match_fct = Some (memcmp env0), gc_period = period,
      gc_thresh = thr, tracker_priv = 0, gc_timer = (period \<noteq> 0 \<and> thr \<noteq> 0), lock = False,
      ht = buckets, events_free_list = free, mem = m, cb_log = log\<rparr>"

text \<open>A fresh tracker of three records; the same after \<open>key1\<close> and \<open>key2\<close> were opened.\<close>
definition trk_new3 :: latency_tracker where
  "trk_new3 = example_tracker 0 0 [[], []] [2, 1, 0] (\<lambda>_. zero_event) []"

definition trk_two :: latency_tracker where
  "trk_two = example_tracker 0 0 [[1], [0]] [2]
     ((\<lambda>_. zero_event)(0 := example_event key1 1 100 6 7, 1 := example_event key2 0 110 400 7))
     []"

text \<open>A fresh tracker of one record; the same after \<open>key1\<close> was opened.\<close>
definition trk_cap1 :: latency_tracker where
  "trk_cap1 = example_tracker 0 0 [[], []] [0] (\<lambda>_. zero_event) []"

definition trk_full :: latency_tracker where
  "trk_full = example_tracker 0 0 [[], [0]] []
     ((\<lambda>_. zero_event)(0 := example_event key1 1 100 6 7)) []"

definition call1 :: event_in_call where
  "call1 = \<lparr>c_key = key1, c_key_len = 4, c_thresh = 6, c_cb = Some 7, c_timeout = 0,
     c_unique = 0, c_priv = 0, c_now = 100\<rparr>"

text \<open>
  A tracker of two records that collects every 10 ns what is older than 100 ns, with
  \<open>key1\<close> opened at time 1000.
\<close>
definition trk_gc_new :: latency_tracker where
  "trk_gc_new = example_tracker 10 100 [[], []] [1, 0] (\<lambda>_. zero_event) []"

definition trk_young :: latency_tracker where
  "trk_young = example_tracker 10 100 [[], [0]] [1]
     ((\<lambda>_. zero_event)(0 := example_event key1 1 1000 6 7)) []"

text \<open>What \<^verbatim>\<open>latency_tracker_create\<close> returns when the caller passes both functions.\<close>
definition trk_nofn :: latency_tracker where
  "trk_nofn = \<lparr>hash_fct = None, match_fct = None, gc_period = 0, gc_thresh = 0,
     tracker_priv = 0, gc_timer = False, lock = False, ht = [[], []],
     events_free_list = [2, 1, 0], mem = (\<lambda>_. zero_event), cb_log = []\<rparr>"

definition call2 :: event_in_call where
  "call2 = \<lparr>c_key = key2, c_key_len = 4, c_thresh = 400, c_cb = Some 7, c_timeout = 0,
     c_unique = 0, c_priv = 0, c_now = 110\<rparr>"

text \<open>\<open>trk_two\<close> after \<open>key1\<close> was closed at time 200 with the identifier 9.\<close>
definition trk_closed1 :: latency_tracker where
  "trk_closed1 = example_tracker 0 0 [[1], []] [0, 2] ((mem trk_two)(0 := zero_event))
     [(7, 0, (example_event key1 1 100 6 7)\<lparr>end_ts := 200,
         cb_flag := LATENCY_TRACKER_CB_NORMAL, cb_out_id := 9\<rparr>)]"

text \<open>
  \<open>trk_full\<close> after \<^verbatim>\<open>wrapper_ht_unique_check\<close>, run on its own for \<open>key1\<close>, evicted the
  event.
\<close>
definition trk_evicted :: latency_tracker where
  "trk_evicted = example_tracker 0 0 [[], []] [0] ((mem trk_full)(0 := zero_event))
     [(7, 0, (example_event key1 1 100 6 7)\<lparr>cb_flag := LATENCY_TRACKER_CB_UNIQUE\<rparr>)]"

text \<open>
  \<open>trk_full\<close> as it is when \<^verbatim>\<open>wrapper_ht_unique_check\<close>, called by a unique open of
  \<open>key1\<close>, calls \<^verbatim>\<open>latency_tracker_event_destroy\<close>: the lock is held, the event is
  flagged and its callback has been called.
\<close>
definition trk_evicting :: latency_tracker where
  "trk_evicting = (example_tracker 0 0 [[], [0]] []
     ((\<lambda>_. zero_event)(0 := (example_event key1 1 100 6 7)\<lparr>cb_flag :=
         LATENCY_TRACKER_CB_UNIQUE\<rparr>))
     [(7, 0, (example_event key1 1 100 6 7)\<lparr>cb_flag := LATENCY_TRACKER_CB_UNIQUE\<rparr>)])
     \<lparr>lock := True\<rparr>"

text \<open>\<open>trk_young\<close> after \<^verbatim>\<open>wrapper_ht_gc\<close>, run on its own at time 1050.\<close>
definition trk_swept :: latency_tracker where
  "trk_swept = example_tracker 10 100 [[], []] [0, 1] ((mem trk_young)(0 := zero_event)) []"

text \<open>
  The tracker of one record after \<open>key1\<close> was opened at time 100 with a timeout of 50 ns
  and no callback.
\<close>
definition trk_timed_nocb :: latency_tracker where
  "trk_timed_nocb = example_tracker 0 0 [[], [0]] []
     ((\<lambda>_. zero_event)(0 := (example_event key1 1 100 6 7)\<lparr>timer := True, timeout := 50,
         cb := None\<rparr>))
     []"

text \<open>The same with the callback 7.\<close>
definition trk_timed :: latency_tracker where
  "trk_timed = example_tracker 0 0 [[], [0]] []
     ((\<lambda>_. zero_event)(0 := (example_event key1 1 100 6 7)\<lparr>timer := True, timeout := 50\<rparr>))
     []"

section \<open>Auxiliary facts\<close>

lemma unlocked_id: "\<not> lock t \<Longrightarrow> t\<lparr>lock := False\<rparr> = t"
  by (cases t) simp

lemma locked_id: "lock t \<Longrightarrow> t\<lparr>lock := True\<rparr> = t"
  by (cases t) simp

lemma event_destroy_unlocked:
  assumes "\<not> lock t"
  shows "latency_tracker_event_destroy t s = Inr (retire t s)"
proof -
  have "(retire t s)\<lparr>lock := False\<rparr> = retire t s"
    using assms by (intro unlocked_id) (simp add: retire_def)
  then show ?thesis
    using assms
    by (simp add: latency_tracker_event_destroy_def spin_lock_irqsave_def
        spin_unlock_irqrestore_def wrapper_ht_del_def del_timer_def
        latency_tracker_put_event_def Let_def retire_def)
qed

lemma event_destroy_locked:
  "lock t \<Longrightarrow> latency_tracker_event_destroy t s = Inl Deadlock"
  by (simp add: latency_tracker_event_destroy_def spin_lock_irqsave_def)

lemma lock_retire [simp]: "lock (retire t s) = lock t"
  by (simp add: retire_def)

lemma call_cb_if_set_eq:
  "call_cb_if_set t s =
     t\<lparr>cb_log := cb_log t @ (case cb (mem t s) of None \<Rightarrow> [] | Some f \<Rightarrow> [(f, s, mem t s)])\<rparr>"
  by (simp add: call_cb_if_set_def split: option.splits)

lemma gc_body_unlocked:
  assumes "\<not> lock t"
  shows "gc_body now t s = Inr ((retire t s)\<lparr>cb_log := cb_log t @ gc_entry now t s\<rparr>)"
proof -
  have "retire (t\<lparr>mem := (mem t)(s := (mem t s)\<lparr>end_ts := now,
                    cb_flag := LATENCY_TRACKER_CB_GC\<rparr>), cb_log := l\<rparr>) s
          = (retire t s)\<lparr>cb_log := l\<rparr>" for l
    by (rule latency_tracker.equality) (simp_all add: retire_def)
  then show ?thesis
    using assms
    by (simp add: gc_body_def gc_entry_def call_cb_if_set_eq event_destroy_unlocked Let_def
        retire_def split: option.splits)
qed

lemma gc_body_locked: "lock t \<Longrightarrow> gc_body now t s = Inl Deadlock"
  by (simp add: gc_body_def call_cb_if_set_eq event_destroy_locked Let_def
      split: option.splits)

lemma for_each_pure:
  assumes "P st" and "\<And>st s. P st \<Longrightarrow> body st s = Inr (g st s) \<and> P (g st s)"
  shows "for_each body ss st = Inr (foldl g st ss) \<and> P (foldl g st ss)"
  using assms(1)
proof (induction ss arbitrary: st)
  case Nil
  then show ?case by simp
next
  case (Cons s ss)
  from assms(2) [OF Cons.prems, of s] Cons.IH [of "g st s"]
  show ?case by simp
qed

lemma for_each_bucket_pure:
  assumes "P st" and "\<And>st s. P st \<Longrightarrow> body st s = Inr (g st s) \<and> P (g st s)"
  shows "for_each_bucket body bs st
           = Inr (foldl (\<lambda>st bkt. foldl g st (ht (snd st) ! bkt)) st bs)
         \<and> P (foldl (\<lambda>st bkt. foldl g st (ht (snd st) ! bkt)) st bs)"
  using assms(1)
proof (induction bs arbitrary: st)
  case Nil
  then show ?case by simp
next
  case (Cons b bs)
  from for_each_pure [of P st body g "ht (snd st) ! b", OF Cons.prems assms(2)]
  have 1: "for_each body (ht (snd st) ! b) st = Inr (foldl g st (ht (snd st) ! b))"
    and 2: "P (foldl g st (ht (snd st) ! b))"
    by simp_all
  from Cons.IH [OF 2] 1 show ?case by simp
qed

lemma for_each_bucket_stuck:
  assumes "\<And>s. body st s = Inl e"
  shows "for_each_bucket body bs st
           = (if \<forall>b \<in> set bs. ht (snd st) ! b = [] then Inr st else Inl e)"
proof (induction bs)
  case Nil
  then show ?case by simp
next
  case (Cons b bs)
  have "for_each body (ht (snd st) ! b) st
          = (if ht (snd st) ! b = [] then Inr st else Inl e)"
    using assms by (cases "ht (snd st) ! b") simp_all
  then show ?case
    using Cons by simp
qed

lemma all_buckets_empty:
  "(\<forall>b \<in> set [0..<length hs]. hs ! b = []) \<longleftrightarrow> concat hs = []"
  by (auto simp: in_set_conv_nth) (metis nth_mem)

lemma filter_removeAll:
  "filter P (removeAll s xs) = filter (\<lambda>x. x \<noteq> s \<and> P x) xs"
  by (induction xs) auto

lemma foldl_retire_ht:
  assumes "\<And>st s. ht (snd (body st s)) = map (removeAll s) (ht (snd st))"
  shows "ht (snd (foldl body st ss)) = map (filter (\<lambda>x. x \<notin> set ss)) (ht (snd st))"
proof (induction ss arbitrary: st)
  case Nil
  then show ?case by (simp add: map_idI)
next
  case (Cons s ss)
  then show ?case by (simp add: assms filter_removeAll conj_commute)
qed

lemma sweep_prefix:
  assumes body: "\<And>st s. ht (snd (body st s)) = map (removeAll s) (ht (snd st))"
    and dist: "distinct (concat (ht (snd st)))"
    and n: "n \<le> length (ht (snd st))"
  shows "foldl (\<lambda>st bkt. foldl body st (ht (snd st) ! bkt)) st [0..<n]
           = foldl body st (concat (take n (ht (snd st))))"
  using n
proof (induction n)
  case 0
  then show ?case by simp
next
  case (Suc n)
  let ?hs = "ht (snd st)"
  let ?mid = "foldl body st (concat (take n ?hs))"
  have n: "n < length ?hs" using Suc.prems by simp
  have tk: "take (Suc n) ?hs = take n ?hs @ [?hs ! n]"
    using n by (simp add: take_Suc_conv_app_nth)
  have "distinct (concat (take n ?hs @ drop n ?hs))"
    using dist by simp
  then have disj: "set (concat (take n ?hs)) \<inter> set (concat (drop n ?hs)) = {}"
    by (simp only: concat_append distinct_append)
  have "?hs ! n \<in> set (drop n ?hs)"
    using n by (metis Cons_nth_drop_Suc list.set_intros(1))
  then have sub: "set (?hs ! n) \<subseteq> set (concat (drop n ?hs))"
    by auto
  have "ht (snd ?mid) ! n = filter (\<lambda>x. x \<notin> set (concat (take n ?hs))) (?hs ! n)"
    using n by (simp add: foldl_retire_ht [OF body])
  also have "\<dots> = ?hs ! n"
    using disj sub by (intro filter_True) blast
  finally have bkt: "ht (snd ?mid) ! n = ?hs ! n" .
  show ?case
    using Suc.IH n by (simp add: tk bkt)
qed

lemma sweep_snapshot:
  assumes "\<And>st s. ht (snd (body st s)) = map (removeAll s) (ht (snd st))"
    and "distinct (concat (ht (snd st)))"
  shows "foldl (\<lambda>st bkt. foldl body st (ht (snd st) ! bkt)) st [0..<length (ht (snd st))]
           = foldl body st (concat (ht (snd st)))"
  using sweep_prefix [OF assms, of "length (ht (snd st))"] by simp

lemma funpow_id_self: "((\<lambda>u. u) ^^ n) x = x"
  by (induction n) simp_all

lemma foldl_pair:
  "foldl (\<lambda>(u, t) s. (c u, f t s)) (u0, t) ss = ((c ^^ length ss) u0, foldl f t ss)"
  by (induction ss arbitrary: u0 t) (simp_all add: funpow_swap1)

lemma retire_all_Nil: "retire_all [] t = t"
  by (simp add: retire_all_def map_idI)

lemma retire_all_Cons: "retire_all ss (retire t s) = retire_all (s # ss) t"
  by (rule latency_tracker.equality)
    (auto simp: retire_all_def retire_def filter_removeAll conj_commute fun_eq_iff)

lemma retire_eq_retire_all: "retire t s = retire_all [s] t"
  using retire_all_Cons [of "[]" t s] by (simp add: retire_all_Nil)

lemma foldl_retire: "foldl retire t ss = retire_all ss t"
  by (induction ss arbitrary: t) (simp_all add: retire_all_Nil retire_all_Cons)

lemma gc_entry_cong:
  "mem t' s = mem t s \<Longrightarrow> gc_thresh t' = gc_thresh t \<Longrightarrow> gc_entry now t' s = gc_entry now t s"
  by (simp add: gc_entry_def split: option.splits)

lemma foldl_gc_retire:
  assumes "distinct ss"
  shows "foldl (gc_retire now) t ss
     = (retire_all ss t)\<lparr>cb_log := cb_log t @ concat (map (gc_entry now t) ss)\<rparr>"
  using assms
proof (induction ss arbitrary: t)
  case Nil
  then show ?case by (simp add: retire_all_Nil)
next
  case (Cons s ss)
  let ?t1 = "gc_retire now t s"
  have same: "map (gc_entry now ?t1) ss = map (gc_entry now t) ss"
    using Cons.prems
    by (intro map_cong refl gc_entry_cong) (auto simp: gc_retire_def retire_def)
  have "foldl (gc_retire now) t (s # ss) = foldl (gc_retire now) ?t1 ss"
    by simp
  also have "\<dots> = (retire_all ss ?t1)\<lparr>cb_log := cb_log ?t1 @ concat (map (gc_entry now ?t1) ss)\<rparr>"
    using Cons.prems by (intro Cons.IH) simp
  also have "\<dots> = (retire_all (s # ss) t)\<lparr>cb_log := cb_log t @ concat (map (gc_entry now t) (s # ss))\<rparr>"
    unfolding same
    by (rule latency_tracker.equality)
      (auto simp: gc_retire_def retire_def retire_all_def filter_removeAll conj_commute
        fun_eq_iff)
  finally show ?case .
qed

lemma retire_all_concat_ht:
  "ht (retire_all (concat (ht t)) t) = map (\<lambda>_. []) (ht t)"
  by (auto simp: retire_all_def filter_empty_conv)

lemma funpow_succ_int: "((\<lambda>nb::int. nb + 1) ^^ m) n = n + int m"
  by (induction m) simp_all

lemma clear_sweep:
  assumes "\<not> lock t" and "distinct (concat (ht t))"
  shows "hash_for_each_safe
           (\<lambda>(nb, t) s. case latency_tracker_event_destroy t s of
                           Inl e \<Rightarrow> Inl e
                         | Inr t' \<Rightarrow> Inr (nb + 1, t'))
           (n, t)
         = Inr (n + int (length (concat (ht t))), retire_all (concat (ht t)) t)"
proof -
  let ?body = "\<lambda>(nb::int, t) s. case latency_tracker_event_destroy t s of
                           Inl e \<Rightarrow> Inl e
                         | Inr t' \<Rightarrow> Inr (nb + 1, t')"
  let ?g = "\<lambda>(nb::int, t) s. (nb + 1, retire t s)"
  have "for_each_bucket ?body [0..<length (ht (snd (n, t)))] (n, t)
          = Inr (foldl (\<lambda>st bkt. foldl ?g st (ht (snd st) ! bkt)) (n, t)
                   [0..<length (ht (snd (n, t)))])"
  proof (rule for_each_bucket_pure [where P = "\<lambda>st. \<not> lock (snd st)" and g = ?g,
        THEN conjunct1])
    show "\<not> lock (snd (n, t))" using assms(1) by simp
    show "?body st s = Inr (?g st s) \<and> \<not> lock (snd (?g st s))" if "\<not> lock (snd st)" for st s
      using that by (cases st) (simp add: event_destroy_unlocked)
  qed
  also have "foldl (\<lambda>st bkt. foldl ?g st (ht (snd st) ! bkt)) (n, t)
                   [0..<length (ht (snd (n, t)))]
               = foldl ?g (n, t) (concat (ht (snd (n, t))))"
    by (rule sweep_snapshot) (auto simp: retire_def assms(2) split: prod.splits)
  also have "\<dots> = (((\<lambda>nb. nb + 1) ^^ length (concat (ht t))) n, foldl retire t (concat (ht t)))"
    using foldl_pair [where c = "\<lambda>nb::int. nb + 1" and f = retire] by simp
  finally show ?thesis
    by (simp add: hash_for_each_safe_def foldl_retire funpow_succ_int)
qed

lemma wrapper_ht_clear_eq:
  assumes "\<not> lock t" and "distinct (concat (ht t))"
  shows "wrapper_ht_clear t
           = Inr (int (length (concat (ht t))), retire_all (concat (ht t)) t)"
  using clear_sweep [OF assms, of 0] by (simp add: wrapper_ht_clear_def)

lemma gc_sweep_unlocked:
  assumes "\<not> lock t" and "distinct (concat (ht t))"
  shows "hash_for_each_safe
           (\<lambda>(u, t) s. case gc_body now t s of
                          Inl e \<Rightarrow> Inl e
                        | Inr t' \<Rightarrow> Inr (u, t'))
           (u0, t)
         = Inr (u0, (retire_all (concat (ht t)) t)
                      \<lparr>cb_log := cb_log t @ concat (map (gc_entry now t) (concat (ht t)))\<rparr>)"
proof -
  let ?body = "\<lambda>(u, t) s. case gc_body now t s of
                          Inl e \<Rightarrow> Inl e
                        | Inr t' \<Rightarrow> Inr (u, t')"
  let ?g = "\<lambda>(u, t) s. (u, gc_retire now t s)"
  have "for_each_bucket ?body [0..<length (ht (snd (u0, t)))] (u0, t)
          = Inr (foldl (\<lambda>st bkt. foldl ?g st (ht (snd st) ! bkt)) (u0, t)
                   [0..<length (ht (snd (u0, t)))])"
  proof (rule for_each_bucket_pure [where P = "\<lambda>st. \<not> lock (snd st)" and g = ?g,
        THEN conjunct1])
    show "\<not> lock (snd (u0, t))" using assms(1) by simp
    show "?body st s = Inr (?g st s) \<and> \<not> lock (snd (?g st s))" if "\<not> lock (snd st)" for st s
      using that by (cases st) (simp add: gc_body_unlocked gc_retire_def)
  qed
  also have "foldl (\<lambda>st bkt. foldl ?g st (ht (snd st) ! bkt)) (u0, t)
                   [0..<length (ht (snd (u0, t)))]
               = foldl ?g (u0, t) (concat (ht (snd (u0, t))))"
    by (rule sweep_snapshot)
      (auto simp: gc_retire_def retire_def assms(2) split: prod.splits)
  also have "\<dots> = (u0, foldl (gc_retire now) t (concat (ht t)))"
    using foldl_pair [where c = "\<lambda>u. u" and f = "gc_retire now" and ?u0.0 = u0]
    by (simp add: funpow_id_self)
  finally show ?thesis
    by (simp add: hash_for_each_safe_def foldl_gc_retire [OF assms(2)])
qed

lemma wrapper_ht_gc_eq:
  assumes "\<not> lock t" and "distinct (concat (ht t))"
  shows "wrapper_ht_gc t now
           = Inr ((retire_all (concat (ht t)) t)
                    \<lparr>cb_log := cb_log t @ concat (map (gc_entry now t) (concat (ht t)))\<rparr>)"
  unfolding wrapper_ht_gc_def gc_sweep_unlocked [OF assms] by simp

lemma gc_sweep_locked:
  assumes "lock t"
  shows "hash_for_each_safe
           (\<lambda>(u, t) s. case gc_body now t s of
                          Inl e \<Rightarrow> Inl e
                        | Inr t' \<Rightarrow> Inr (u, t'))
           (u0, t)
         = (if concat (ht t) = [] then Inr (u0, t) else Inl Deadlock)"
proof -
  have "(case (u0, t) of (u, t) \<Rightarrow> \<lambda>s. case gc_body now t s of
                          Inl e \<Rightarrow> Inl e
                        | Inr t' \<Rightarrow> Inr (u, t')) s = Inl Deadlock" for s
    using assms by (simp add: gc_body_locked)
  from for_each_bucket_stuck [where st = "(u0, t)" and e = Deadlock
      and body = "\<lambda>(u, t) s. case gc_body now t s of
                          Inl e \<Rightarrow> Inl e
                        | Inr t' \<Rightarrow> Inr (u, t')", OF this]
  show ?thesis
    unfolding hash_for_each_safe_def
    using all_buckets_empty [of "ht t"] by simp
qed

lemma wrapper_ht_gc_locked:
  assumes "lock t"
  shows "wrapper_ht_gc t now = (if concat (ht t) = [] then Inr t else Inl Deadlock)"
  unfolding wrapper_ht_gc_def gc_sweep_locked [OF assms] by simp

lemma gc_cb_eq:
  assumes "\<not> lock t"
  shows "latency_tracker_gc_cb t now
           = (if concat (ht t) = [] then Inr (latency_tracker_enable_gc t) else Inl Deadlock)"
proof -
  have "(latency_tracker_enable_gc (t\<lparr>lock := True\<rparr>))\<lparr>lock := False\<rparr>
          = latency_tracker_enable_gc t"
    using assms
    by (intro latency_tracker.equality) (simp_all add: latency_tracker_enable_gc_def)
  then show ?thesis
    using assms
    by (simp add: latency_tracker_gc_cb_def spin_lock_irqsave_def spin_unlock_irqrestore_def
        wrapper_ht_gc_locked)
qed

lemma close_entry_cong:
  "mem t' s = mem t s \<Longrightarrow> close_entry out_id now t' s = close_entry out_id now t s"
  by (simp add: close_entry_def split: option.splits)

lemma matching_cong:
  "(\<And>s. s \<in> set ss \<Longrightarrow> mem t' s = mem t s) \<Longrightarrow> matching m k n t' ss = matching m k n t ss"
  unfolding matching_def by (rule filter_cong) auto

lemma matching_subset: "set (matching m k n t ss) \<subseteq> set ss"
  by (auto simp: matching_def)

lemma destroy_between_unlock_and_lock:
  "(case latency_tracker_event_destroy (spin_unlock_irqrestore t1) s of
      Inl e \<Rightarrow> Inl e
    | Inr t2 \<Rightarrow> (case spin_lock_irqsave t2 of Inl e \<Rightarrow> Inl e | Inr t3 \<Rightarrow> F t3))
   = F ((retire t1 s)\<lparr>lock := True\<rparr>)"
proof -
  have "(retire (t1\<lparr>lock := False\<rparr>) s)\<lparr>lock := True\<rparr> = (retire t1 s)\<lparr>lock := True\<rparr>"
    by (rule latency_tracker.equality) (simp_all add: retire_def)
  then show ?thesis
    by (simp add: event_destroy_unlocked spin_unlock_irqrestore_def spin_lock_irqsave_def)
qed

lemma check_event_loop_eq:
  assumes "match_fct t = Some m" and "distinct ss" and "lock t"
  shows "check_event_loop k key_len out_id now ss (found, t)
           = Inr (if matching m k key_len t ss = [] then found else 1,
                  (retire_all (matching m k key_len t ss) t)
                    \<lparr>cb_log := cb_log t @
                       concat (map (close_entry out_id now t) (matching m k key_len t ss))\<rparr>)"
  using assms
proof (induction ss arbitrary: found t)
  case Nil
  then show ?case by (simp add: matching_def retire_all_Nil)
next
  case (Cons s ss)
  show ?case
  proof (cases "m k (key (mem t s)) key_len = 0")
    case False
    then have "matching m k key_len t (s # ss) = matching m k key_len t ss"
      by (simp add: matching_def)
    then show ?thesis
      using Cons False by simp
  next
    case True
    define t2 where "t2 = (retire t s)\<lparr>cb_log := cb_log t @ close_entry out_id now t s\<rparr>"
    let ?M = "matching m k key_len t ss"
    have visit: "(retire (if now - start_ts (mem t s) > thresh (mem t s)
                      then call_cb_if_set
                             (t\<lparr>mem := (mem t)(s := (mem t s)\<lparr>end_ts := now,
                                   cb_flag := LATENCY_TRACKER_CB_NORMAL,
                                   cb_out_id := out_id\<rparr>)\<rparr>) s
                      else t) s)\<lparr>lock := True\<rparr> = t2"
      using Cons.prems(3)
      by (intro latency_tracker.equality)
        (simp_all add: t2_def retire_def close_entry_def call_cb_if_set_eq split: option.splits)
    have step: "check_event_loop k key_len out_id now (s # ss) (found, t)
                  = check_event_loop k key_len out_id now ss (1, t2)"
      using True Cons.prems(1)
      by (simp only: check_event_loop.simps option.case Let_def
          destroy_between_unlock_and_lock visit) simp
    have m2: "match_fct t2 = Some m" and l2: "lock t2"
      using Cons.prems(1,3) by (simp_all add: t2_def retire_def)
    have agree: "\<And>x. x \<in> set ss \<Longrightarrow> mem t2 x = mem t x"
      using Cons.prems(2) by (auto simp: t2_def retire_def)
    have M2: "matching m k key_len t2 ss = ?M"
      by (rule matching_cong) (rule agree)
    have E2: "map (close_entry out_id now t2) ?M = map (close_entry out_id now t) ?M"
      using matching_subset [of m k key_len t ss]
      by (intro map_cong refl close_entry_cong agree) auto
    have Ms: "matching m k key_len t (s # ss) = s # ?M"
      using True by (simp add: matching_def)
    have "check_event_loop k key_len out_id now ss (1, t2)
            = Inr (1, (retire_all ?M t2)
                    \<lparr>cb_log := cb_log t2 @ concat (map (close_entry out_id now t) ?M)\<rparr>)"
      using Cons.IH [OF m2 _ l2, of 1] Cons.prems(2) by (simp add: M2 E2)
    moreover have "(retire_all ?M t2)
                     \<lparr>cb_log := cb_log t2 @ concat (map (close_entry out_id now t) ?M)\<rparr>
                 = (retire_all (s # ?M) t)
                     \<lparr>cb_log := cb_log t @ concat (map (close_entry out_id now t) (s # ?M))\<rparr>"
      by (rule latency_tracker.equality)
        (auto simp: t2_def retire_all_def retire_def filter_removeAll conj_commute fun_eq_iff)
    ultimately show ?thesis
      using step by (simp add: Ms)
  qed
qed

lemma check_event_loop_no_match_fct:
  assumes "match_fct t = None"
  shows "check_event_loop k key_len out_id now ss (found, t)
           = (if ss = [] then Inr (found, t) else Inl NullCall)"
  using assms by (cases ss) auto

lemma evict_eq:
  "retire (call_cb_if_set
             (t\<lparr>mem := (mem t)(s := (mem t s)\<lparr>cb_flag := LATENCY_TRACKER_CB_UNIQUE\<rparr>)\<rparr>) s) s
     = evict t s"
  by (rule latency_tracker.equality)
    (auto simp: evict_def unique_entry_def retire_all_def retire_def call_cb_if_set_eq
      removeAll_filter_not_eq fun_eq_iff split: option.splits intro: filter_cong)

lemma unique_check_loop_unlocked:
  assumes "match_fct t = Some m" and "\<not> lock t"
  shows "unique_check_loop k key_len ss t
           = Inr (case find (\<lambda>s. m k (key (mem t s)) key_len = 0) ss of
                    None \<Rightarrow> t
                  | Some s \<Rightarrow> evict t s)"
proof (induction ss)
  case Nil
  then show ?case by simp
next
  case (Cons s ss)
  have "latency_tracker_event_destroy
          (call_cb_if_set
             (t\<lparr>mem := (mem t)(s := (mem t s)\<lparr>cb_flag := LATENCY_TRACKER_CB_UNIQUE\<rparr>)\<rparr>) s) s
        = Inr (evict t s)"
    using assms(2) evict_eq [of t s]
    by (subst event_destroy_unlocked) (simp_all add: call_cb_if_set_eq split: option.splits)
  then show ?case
    using Cons assms(1) by simp
qed

lemma unique_check_loop_locked:
  assumes "match_fct t = Some m" and "lock t"
  shows "unique_check_loop k key_len ss t
           = (case find (\<lambda>s. m k (key (mem t s)) key_len = 0) ss of
                None \<Rightarrow> Inr t
              | Some s \<Rightarrow> Inl Deadlock)"
proof (induction ss)
  case Nil
  then show ?case by simp
next
  case (Cons s ss)
  have "latency_tracker_event_destroy
          (call_cb_if_set
             (t\<lparr>mem := (mem t)(s := (mem t s)\<lparr>cb_flag := LATENCY_TRACKER_CB_UNIQUE\<rparr>)\<rparr>) s) s
        = Inl Deadlock"
    using assms(2)
    by (subst event_destroy_locked) (simp_all add: call_cb_if_set_eq split: option.splits)
  then show ?case
    using Cons assms(1) by simp
qed

lemma unique_check_loop_no_match_fct:
  assumes "match_fct t = None"
  shows "unique_check_loop k key_len ss t = (if ss = [] then Inr t else Inl NullCall)"
  using assms by (cases ss) auto

lemma wrapper_ht_unique_check_unlocked:
  assumes "hash_fct t = Some h" and "match_fct t = Some m" and "\<not> lock t"
  shows "wrapper_ht_unique_check env t k key_len
           = Inr (case find (\<lambda>s. m k (key (mem t s)) key_len = 0)
                         (ht t ! bucket_of env t (h k (of_nat key_len) 0)) of
                    None \<Rightarrow> t
                  | Some s \<Rightarrow> evict t s)"
  using assms by (simp add: wrapper_ht_unique_check_def unique_check_loop_unlocked)

lemma wrapper_ht_unique_check_locked:
  assumes "hash_fct t = Some h" and "match_fct t = Some m" and "lock t"
  shows "wrapper_ht_unique_check env t k key_len
           = (case find (\<lambda>s. m k (key (mem t s)) key_len = 0)
                     (ht t ! bucket_of env t (h k (of_nat key_len) 0)) of
                None \<Rightarrow> Inr t
              | Some s \<Rightarrow> Inl Deadlock)"
  using assms by (simp add: wrapper_ht_unique_check_def unique_check_loop_locked)

lemma unique_check_locked_result:
  assumes "lock t" and "wrapper_ht_unique_check env t k key_len = Inr t1"
  shows "t1 = t"
proof -
  from assms(2) obtain h where h: "hash_fct t = Some h"
    by (auto simp: wrapper_ht_unique_check_def split: option.splits)
  show ?thesis
  proof (cases "match_fct t")
    case None
    then show ?thesis
      using assms(2) h
      by (auto simp: wrapper_ht_unique_check_def unique_check_loop_no_match_fct
          split: if_splits)
  next
    case (Some m)
    then show ?thesis
      using assms wrapper_ht_unique_check_locked [OF h Some assms(1), of env k key_len]
      by (auto split: option.splits)
  qed
qed

lemma evict_fields:
  "events_free_list (evict t s) = s # events_free_list t"
  "hash_fct (evict t s) = hash_fct t"
  "match_fct (evict t s) = match_fct t"
  "ht (evict t s) = map (filter (\<lambda>x. x \<noteq> s)) (ht t)"
  "mem (evict t s) = (mem t)(s := zero_event)"
  "cb_log (evict t s) = cb_log t @ unique_entry t s"
  "lock (evict t s) = lock t"
  by (auto simp: evict_def retire_all_def fun_eq_iff)

lemma concat_map_filter: "concat (map (filter P) hs) = filter P (concat hs)"
  by (induction hs) auto

lemma inv_retire_all:
  assumes "tracker_inv t" and "distinct ss" and "set ss \<subseteq> set (concat (ht t))"
  shows "tracker_inv ((retire_all ss t)\<lparr>cb_log := l\<rparr>)"
  using assms
  by (auto simp: tracker_inv_def retire_all_def concat_map_filter)

lemma concat_update_cons:
  assumes "b < length hs"
  shows "concat (hs[b := s # hs ! b])
           = concat (take b hs) @ s # concat (drop b hs)"
proof -
  have "hs[b := s # hs ! b] = take b hs @ (s # hs ! b) # drop (Suc b) hs"
    using assms by (simp add: upd_conv_take_nth_drop)
  moreover have "drop b hs = hs ! b # drop (Suc b) hs"
    using assms by (simp add: Cons_nth_drop_Suc)
  ultimately show ?thesis by simp
qed

lemma concat_take_drop: "concat hs = concat (take b hs) @ concat (drop b hs)"
  by (metis append_take_drop_id concat_append)

lemma set_concat_update_cons:
  assumes "b < length hs"
  shows "set (concat (hs[b := s # hs ! b])) = insert s (set (concat hs))"
proof -
  have "set (concat hs) = set (concat (take b hs)) \<union> set (concat (drop b hs))"
    by (metis concat_take_drop set_append)
  moreover have "set (concat (hs[b := s # hs ! b]))
                   = insert s (set (concat (take b hs)) \<union> set (concat (drop b hs)))"
    unfolding concat_update_cons [OF assms] by (simp del: set_concat)
  ultimately show ?thesis by simp
qed

lemma length_concat_update_cons:
  assumes "b < length hs"
  shows "length (concat (hs[b := s # hs ! b])) = Suc (length (concat hs))"
proof -
  have "length (concat hs) = length (concat (take b hs)) + length (concat (drop b hs))"
    by (metis concat_take_drop length_append)
  moreover have "length (concat (hs[b := s # hs ! b]))
                   = Suc (length (concat (take b hs)) + length (concat (drop b hs)))"
    unfolding concat_update_cons [OF assms] by simp
  ultimately show ?thesis by simp
qed

lemma distinct_concat_update_cons:
  assumes "b < length hs" and "distinct (concat hs)" and "s \<notin> set (concat hs)"
  shows "distinct (concat (hs[b := s # hs ! b]))"
proof -
  have eq: "concat hs = concat (take b hs) @ concat (drop b hs)"
    by (rule concat_take_drop)
  have "distinct (concat (take b hs) @ concat (drop b hs))"
    and "s \<notin> set (concat (take b hs) @ concat (drop b hs))"
    using assms(2,3) eq by simp_all
  then show ?thesis
    unfolding concat_update_cons [OF assms(1)] by (auto simp del: set_concat)
qed

lemma event_in_no_evict:
  assumes "\<not> evicts env t k key_len unique" and "\<not> lock t"
  shows "latency_tracker_event_in env (Some t) k key_len thr f tmo unique pr now
           = latency_tracker_event_in env (Some t) k key_len thr f tmo 0 pr now"
  using assms
  by (auto simp: evicts_def latency_tracker_event_in_def spin_lock_irqsave_def)

lemma event_in_plain_full:
  assumes "key_len \<le> LATENCY_TRACKER_MAX_KEY_SIZE env" and "events_free_list t = []"
    and "\<not> lock t"
  shows "latency_tracker_event_in env (Some t) k key_len thr f tmo 0 pr now
           = Inr (LATENCY_TRACKER_FULL, Some t)"
  using assms
  by (simp add: latency_tracker_event_in_def latency_tracker_get_event_def
      spin_lock_irqsave_def spin_unlock_irqrestore_def unlocked_id)

lemma event_in_plain_ok:
  assumes "key_len \<le> LATENCY_TRACKER_MAX_KEY_SIZE env" and "events_free_list t \<noteq> []"
    and "hash_fct t = Some h" and "\<not> lock t"
  shows "\<exists>t'. latency_tracker_event_in env (Some t) k key_len thr f tmo 0 pr now
                 = Inr (LATENCY_TRACKER_OK, Some t')
            \<and> events_free_list t' = butlast (events_free_list t)
            \<and> ht t' = (ht t)[bucket_of env t (h k (of_nat key_len) 0)
                         := last (events_free_list t)
                            # ht t ! bucket_of env t (h k (of_nat key_len) 0)]
            \<and> cb_log t' = cb_log t \<and> hash_fct t' = hash_fct t \<and> match_fct t' = match_fct t
            \<and> \<not> lock t'"
  using assms
  by (simp add: latency_tracker_event_in_def latency_tracker_get_event_def wrapper_ht_add_def
      bucket_of_def Let_def spin_lock_irqsave_def spin_unlock_irqrestore_def)

lemma event_in_plain_OK_D:
  assumes "latency_tracker_event_in env (Some t) k key_len thr f tmo 0 pr now
             = Inr (LATENCY_TRACKER_OK, Some t')"
  shows "events_free_list t \<noteq> [] \<and> hash_fct t \<noteq> None
         \<and> key_len \<le> LATENCY_TRACKER_MAX_KEY_SIZE env \<and> \<not> lock t"
  using assms
  by (auto simp: latency_tracker_event_in_def latency_tracker_get_event_def Let_def
      spin_lock_irqsave_def split: if_splits option.splits)

lemma bucket_of_less: "ht t \<noteq> [] \<Longrightarrow> bucket_of env t x < length (ht t)"
  by (simp add: bucket_of_def)

lemma event_in_plain_effect:
  assumes ok: "latency_tracker_event_in env (Some t) k key_len thr f tmo 0 pr now
             = Inr (LATENCY_TRACKER_OK, Some t')"
  shows "Suc (length (events_free_list t')) = length (events_free_list t)"
    and "ht t \<noteq> [] \<Longrightarrow> length (concat (ht t')) = Suc (length (concat (ht t)))"
    and "cb_log t' = cb_log t" and "hash_fct t' = hash_fct t" and "match_fct t' = match_fct t"
    and "hash_fct t \<noteq> None"
    and "tracker_inv t \<Longrightarrow> tracker_inv t'"
    and "length (ht t') = length (ht t)"
proof -
  from event_in_plain_OK_D [OF ok] obtain h where
    fl: "events_free_list t \<noteq> []" and h: "hash_fct t = Some h"
    and kl: "key_len \<le> LATENCY_TRACKER_MAX_KEY_SIZE env" and ul: "\<not> lock t"
    by auto
  from event_in_plain_ok [OF kl fl h ul, of k thr f tmo pr now] ok
  have fl': "events_free_list t' = butlast (events_free_list t)"
    and ht': "ht t' = (ht t)[bucket_of env t (h k (of_nat key_len) 0)
                         := last (events_free_list t)
                            # ht t ! bucket_of env t (h k (of_nat key_len) 0)]"
    and rest: "cb_log t' = cb_log t" "hash_fct t' = hash_fct t" "match_fct t' = match_fct t"
    and ul': "\<not> lock t'"
    by auto
  show "Suc (length (events_free_list t')) = length (events_free_list t)"
    using fl fl' by simp
  show "ht t \<noteq> [] \<Longrightarrow> length (concat (ht t')) = Suc (length (concat (ht t)))"
    by (simp add: ht' length_concat_update_cons bucket_of_less)
  show "cb_log t' = cb_log t" "hash_fct t' = hash_fct t" "match_fct t' = match_fct t"
    by (rule rest)+
  show "hash_fct t \<noteq> None" using h by simp
  show "length (ht t') = length (ht t)" by (simp add: ht')
  show "tracker_inv t'" if inv: "tracker_inv t"
  proof -
    have ne: "ht t \<noteq> []" and d: "distinct (concat (ht t) @ events_free_list t)"
      using inv by (auto simp: tracker_inv_def)
    have split: "events_free_list t = butlast (events_free_list t) @ [last (events_free_list t)]"
      using fl by simp
    have "distinct (concat (ht t) @ butlast (events_free_list t) @ [last (events_free_list t)])"
      using d split by simp
    then have d1: "distinct (concat (ht t))" and d2: "distinct (butlast (events_free_list t))"
      and n1: "last (events_free_list t) \<notin> set (concat (ht t))"
      and n2: "set (concat (ht t)) \<inter> set (butlast (events_free_list t)) = {}"
      and n3: "last (events_free_list t) \<notin> set (butlast (events_free_list t))"
      by (auto simp del: set_concat)
    let ?b = "bucket_of env t (h k (of_nat key_len) 0)"
    have b: "?b < length (ht t)" using ne by (rule bucket_of_less)
    have "distinct (concat (ht t'))"
      unfolding ht' using b d1 n1 by (rule distinct_concat_update_cons)
    moreover have "set (concat (ht t')) = insert (last (events_free_list t)) (set (concat (ht t)))"
      unfolding ht' using b by (rule set_concat_update_cons)
    moreover have "ht t' \<noteq> []" using ne by (simp add: ht')
    ultimately show ?thesis
      using d2 n2 n3 ul' by (auto simp: tracker_inv_def fl' simp del: set_concat)
  qed
qed

lemma event_in_after_unique:
  assumes "key_len \<le> LATENCY_TRACKER_MAX_KEY_SIZE env" and "unique \<noteq> 0" and "\<not> lock t"
    and "wrapper_ht_unique_check env (t\<lparr>lock := True\<rparr>) k key_len = Inr t1"
  shows "latency_tracker_event_in env (Some t) k key_len thr f tmo unique pr now
           = latency_tracker_event_in env (Some t) k key_len thr f tmo 0 pr now"
proof -
  have "t1 = t\<lparr>lock := True\<rparr>"
    using assms(4) by (intro unique_check_locked_result [of _ env k key_len]) simp_all
  then show ?thesis
    using assms by (simp add: latency_tracker_event_in_def spin_lock_irqsave_def)
qed

lemma event_in_evicting:
  assumes "key_len \<le> LATENCY_TRACKER_MAX_KEY_SIZE env" and "unique \<noteq> 0" and "\<not> lock t"
    and "hash_fct t = Some h" and "match_fct t = Some m"
    and "find (\<lambda>s. m k (key (mem t s)) key_len = 0)
           (ht t ! bucket_of env t (h k (of_nat key_len) 0)) = Some s"
  shows "latency_tracker_event_in env (Some t) k key_len thr f tmo unique pr now = Inl Deadlock"
proof -
  have "wrapper_ht_unique_check env (t\<lparr>lock := True\<rparr>) k key_len = Inl Deadlock"
    using wrapper_ht_unique_check_locked [of "t\<lparr>lock := True\<rparr>" h m env k key_len] assms(4-6)
    by (simp add: bucket_of_def)
  then show ?thesis
    using assms(1-3) by (simp add: latency_tracker_event_in_def spin_lock_irqsave_def)
qed

lemma foldl_list_add:
  "foldl (\<lambda>t i. t\<lparr>events_free_list := i # events_free_list t\<rparr>) t xs
     = t\<lparr>events_free_list := rev xs @ events_free_list t\<rparr>"
  by (induction xs arbitrary: t) simp_all

lemma create_props:
  assumes "latency_tracker_create env allocs module_ok match_arg hash_arg max_events period thr pr
             = Some t0"
  shows "tracker_inv t0" and "concat (ht t0) = []" and "cb_log t0 = []"
    and "length (events_free_list t0)
           = nat (if max_events = 0 then DEFAULT_MAX_ALLOC_EVENTS else max_events)"
    and "hash_fct t0 = (if hash_arg = None then Some (jhash env) else None)"
    and "match_fct t0 = (if match_arg = None then Some (memcmp env) else None)"
  using assms
  by (auto simp: latency_tracker_create_def Let_def wrapper_ht_init_def tracker_inv_def
      latency_tracker_enable_gc_def kzalloc_tracker_def foldl_list_add split: if_splits)

lemma opens_ok_effect:
  assumes "opens_ok env t cs = Some t'" and "\<not> lock t"
  shows "length (events_free_list t') + length cs = length (events_free_list t)
         \<and> (ht t \<noteq> [] \<longrightarrow> length (concat (ht t')) = length (concat (ht t)) + length cs)
         \<and> cb_log t' = cb_log t \<and> hash_fct t' = hash_fct t \<and> match_fct t' = match_fct t
         \<and> (tracker_inv t \<longrightarrow> tracker_inv t')
         \<and> (cs \<noteq> [] \<longrightarrow> hash_fct t \<noteq> None)
         \<and> \<not> lock t'"
  using assms
proof (induction cs arbitrary: t)
  case Nil
  then show ?case by simp
next
  case (Cons c cs)
  from Cons.prems obtain t1 where
    ne: "\<not> evicts env t (c_key c) (c_key_len c) (c_unique c)"
    and ok: "event_in_call env t c = Inr (LATENCY_TRACKER_OK, Some t1)"
    and rest: "opens_ok env t1 cs = Some t'"
    by (auto split: if_splits sum.splits prod.splits latency_tracker_event_in_ret.splits
        option.splits)
  have plain: "latency_tracker_event_in env (Some t) (c_key c) (c_key_len c) (c_thresh c)
                 (c_cb c) (c_timeout c) 0 (c_priv c) (c_now c)
               = Inr (LATENCY_TRACKER_OK, Some t1)"
    using ok event_in_no_evict [OF ne Cons.prems(2)] by (simp add: event_in_call_def)
  note eff = event_in_plain_effect [OF plain]
  have len: "ht t \<noteq> [] \<Longrightarrow> ht t1 \<noteq> []"
    using eff(8) by auto
  from event_in_plain_OK_D [OF plain] obtain h where
    "events_free_list t \<noteq> []" "hash_fct t = Some h"
    "c_key_len c \<le> LATENCY_TRACKER_MAX_KEY_SIZE env"
    by auto
  from event_in_plain_ok [OF this(3,1,2) Cons.prems(2), of "c_key c" "c_thresh c" "c_cb c"
      "c_timeout c" "c_priv c" "c_now c"] plain
  have ul1: "\<not> lock t1" by auto
  show ?case
    using Cons.IH [OF rest ul1] eff len by auto
qed

lemma retires_only_retire_all:
  assumes "tracker_inv t" and "distinct ss" and "set ss \<subseteq> set (concat (ht t))"
  shows "retires_only t ((retire_all ss t)\<lparr>cb_log := l\<rparr>)"
  unfolding retires_only_def
  using inv_retire_all [OF assms, of l] assms(3)
  by (auto simp: retire_all_def concat_map_filter)

lemma retires_only_refl: "tracker_inv t \<Longrightarrow> retires_only t t"
  by (simp add: retires_only_def)

lemma inv_bucket:
  assumes "tracker_inv t"
  shows "bucket_of env t x < length (ht t)"
    and "distinct (ht t ! bucket_of env t x)"
    and "set (ht t ! bucket_of env t x) \<subseteq> set (concat (ht t))"
    and "distinct (concat (ht t))"
proof -
  show b: "bucket_of env t x < length (ht t)"
    using assms by (simp add: tracker_inv_def bucket_of_less)
  then have mem: "ht t ! bucket_of env t x \<in> set (ht t)" by simp
  show d: "distinct (concat (ht t))" using assms by (simp add: tracker_inv_def)
  show "distinct (ht t ! bucket_of env t x)"
    using d mem by (simp add: distinct_concat_iff)
  show "set (ht t ! bucket_of env t x) \<subseteq> set (concat (ht t))"
    using mem by auto
qed

lemma wrapper_ht_check_event_eq:
  assumes "hash_fct t = Some h" and "match_fct t = Some m" and "tracker_inv t"
  shows "wrapper_ht_check_event env t k key_len out_id now
           = Inr (if matching m k key_len t (ht t ! bucket_of env t (h k (of_nat key_len) 0)) = []
                  then 0 else 1,
                  (retire_all (matching m k key_len t
                       (ht t ! bucket_of env t (h k (of_nat key_len) 0))) t)
                    \<lparr>cb_log := cb_log t @ concat (map (close_entry out_id now t)
                       (matching m k key_len t
                          (ht t ! bucket_of env t (h k (of_nat key_len) 0))))\<rparr>)"
proof -
  let ?t0 = "t\<lparr>lock := True\<rparr>"
  let ?B = "ht t ! bucket_of env t (h k (of_nat key_len) 0)"
  let ?M = "matching m k key_len t ?B"
  have ul: "\<not> lock t" using assms(3) by (simp add: tracker_inv_def)
  have M0: "matching m k key_len ?t0 ?B = ?M"
    by (rule matching_cong) simp
  have E0: "map (close_entry out_id now ?t0) ?M = map (close_entry out_id now t) ?M"
    by (intro map_cong refl close_entry_cong) simp
  have loop: "check_event_loop k key_len out_id now ?B (0, ?t0)
           = Inr (if ?M = [] then 0 else 1,
                  (retire_all ?M ?t0)
                    \<lparr>cb_log := cb_log t @ concat (map (close_entry out_id now t) ?M)\<rparr>)"
    using check_event_loop_eq [of ?t0 m ?B k key_len out_id now 0] assms(2)
      inv_bucket(2) [OF assms(3), of env]
    by (simp add: M0 E0)
  have unl: "((retire_all ?M ?t0)
                 \<lparr>cb_log := cb_log t @ concat (map (close_entry out_id now t) ?M)\<rparr>)
                 \<lparr>lock := False\<rparr>
              = (retire_all ?M t)
                  \<lparr>cb_log := cb_log t @ concat (map (close_entry out_id now t) ?M)\<rparr>"
    using ul by (intro latency_tracker.equality) (auto simp: retire_all_def fun_eq_iff)
  show ?thesis
    using ul assms(1) loop unl
    by (simp add: wrapper_ht_check_event_def spin_lock_irqsave_def spin_unlock_irqrestore_def
        bucket_of_def)
qed

lemma check_event_no_match_fct:
  assumes "hash_fct t = Some h" and "match_fct t = None" and "\<not> lock t"
  shows "wrapper_ht_check_event env t k key_len out_id now
           = (if ht t ! bucket_of env t (h k (of_nat key_len) 0) = [] then Inr (0, t)
              else Inl NullCall)"
  using assms
  by (simp add: wrapper_ht_check_event_def spin_lock_irqsave_def spin_unlock_irqrestore_def
      check_event_loop_no_match_fct bucket_of_def unlocked_id)

lemma destroy_eq:
  assumes "tracker_inv t"
  shows "latency_tracker_destroy t
           = Inr (int (length (concat (ht t))),
                  retire_all (concat (ht t)) (t\<lparr>gc_timer := False\<rparr>))"
proof -
  have ul: "\<not> lock t" and d: "distinct (concat (ht t))"
    using assms by (simp_all add: tracker_inv_def)
  have "(retire_all (concat (ht t)) (t\<lparr>gc_timer := False\<rparr>))\<lparr>lock := False\<rparr>
          = retire_all (concat (ht t)) (t\<lparr>gc_timer := False\<rparr>)"
    using ul by (intro unlocked_id) (simp add: retire_all_def)
  then show ?thesis
    using ul d wrapper_ht_clear_eq [of "t\<lparr>gc_timer := False\<rparr>"]
    by (simp add: latency_tracker_destroy_def spin_lock_irqsave_def
        spin_unlock_irqrestore_def retire_all_def)
qed

lemma retires_only_event_out:
  assumes inv: "tracker_inv t"
    and out: "latency_tracker_event_out env (Some t) k key_len out_id now = Inr (r, Some t')"
  shows "retires_only t t'"
proof -
  have ul: "\<not> lock t" using inv by (simp add: tracker_inv_def)
  from out ul obtain h where h: "hash_fct t = Some h"
    by (auto simp: latency_tracker_event_out_def wrapper_ht_check_event_def
        spin_lock_irqsave_def split: option.splits sum.splits)
  let ?B = "ht t ! bucket_of env t (h k (of_nat key_len) 0)"
  show ?thesis
  proof (cases "match_fct t")
    case None
    then have "t' = t"
      using out check_event_no_match_fct [OF h None ul, of env k key_len out_id now]
      by (auto simp: latency_tracker_event_out_def split: if_splits)
    then show ?thesis using inv by (simp add: retires_only_refl)
  next
    case (Some m)
    let ?M = "matching m k key_len t ?B"
    have t': "t' = (retire_all ?M t)\<lparr>cb_log := cb_log t @ concat (map (close_entry out_id now t) ?M)\<rparr>"
      using out wrapper_ht_check_event_eq [OF h Some inv, of env k key_len out_id now]
      by (simp add: latency_tracker_event_out_def)
    have "distinct ?M"
      using inv_bucket(2) [OF inv] by (simp add: matching_def)
    moreover have "set ?M \<subseteq> set (concat (ht t))"
      using matching_subset [of m k key_len t ?B] inv_bucket(3) [OF inv, of env] by blast
    ultimately show ?thesis
      unfolding t' using inv by (intro retires_only_retire_all)
  qed
qed

lemma enable_gc_fields:
  "ht (latency_tracker_enable_gc t) = ht t"
  "events_free_list (latency_tracker_enable_gc t) = events_free_list t"
  "hash_fct (latency_tracker_enable_gc t) = hash_fct t"
  "match_fct (latency_tracker_enable_gc t) = match_fct t"
  "cb_log (latency_tracker_enable_gc t) = cb_log t"
  "mem (latency_tracker_enable_gc t) = mem t"
  "lock (latency_tracker_enable_gc t) = lock t"
  by (simp_all add: latency_tracker_enable_gc_def)

lemma retires_only_fields:
  assumes "ht a = ht a'" and "events_free_list a = events_free_list a'"
    and "ht b = ht b'" and "events_free_list b = events_free_list b'" and "lock b = lock b'"
  shows "retires_only a b \<longleftrightarrow> retires_only a' b'"
  using assms by (simp add: retires_only_def tracker_inv_def)

lemma retires_only_gc:
  assumes inv: "tracker_inv t"
  shows "\<exists>t'. wrapper_ht_gc t now = Inr t' \<and> retires_only t t'
              \<and> ht t' = map (\<lambda>_. []) (ht t) \<and> hash_fct t' = hash_fct t"
proof -
  have ul: "\<not> lock t" and d: "distinct (concat (ht t))"
    using inv by (simp_all add: tracker_inv_def)
  note g = wrapper_ht_gc_eq [OF ul d, of now]
  have "retires_only t ((retire_all (concat (ht t)) t)
          \<lparr>cb_log := cb_log t @ concat (map (gc_entry now t) (concat (ht t)))\<rparr>)"
    using inv d by (intro retires_only_retire_all) auto
  then show ?thesis
    unfolding g using retire_all_concat_ht [of t] by (simp add: retire_all_def)
qed

lemma retires_only_gc_cb:
  assumes inv: "tracker_inv t" and g: "latency_tracker_gc_cb t now = Inr t'"
  shows "retires_only t t'" and "ht t' = map (\<lambda>_. []) (ht t)" and "hash_fct t' = hash_fct t"
proof -
  have ul: "\<not> lock t" using inv by (simp add: tracker_inv_def)
  from g have e: "concat (ht t) = []" and t': "t' = latency_tracker_enable_gc t"
    unfolding gc_cb_eq [OF ul] by (auto split: if_splits)
  have "retires_only t t"
    using inv by (rule retires_only_refl)
  then show "retires_only t t'"
    unfolding t'
    by (simp add: enable_gc_fields
        retires_only_fields [of t t "latency_tracker_enable_gc t" t])
  have "\<forall>b \<in> set (ht t). b = []" using e by simp
  then have "map (\<lambda>_. []) (ht t) = ht t"
    by (intro map_idI) auto
  then show "ht t' = map (\<lambda>_. []) (ht t)"
    unfolding t' by (simp add: enable_gc_fields)
  show "hash_fct t' = hash_fct t"
    unfolding t' by (simp add: enable_gc_fields)
qed

lemma retires_only_unique_check:
  assumes inv: "tracker_inv t"
    and uc: "wrapper_ht_unique_check env t k key_len = Inr t'"
  shows "retires_only t t'"
proof -
  have ul: "\<not> lock t" using inv by (simp add: tracker_inv_def)
  from uc obtain h where h: "hash_fct t = Some h"
    by (auto simp: wrapper_ht_unique_check_def split: option.splits)
  let ?B = "ht t ! bucket_of env t (h k (of_nat key_len) 0)"
  show ?thesis
  proof (cases "match_fct t")
    case None
    then have "t' = t"
      using uc h
      by (auto simp: wrapper_ht_unique_check_def unique_check_loop_no_match_fct
          split: if_splits)
    then show ?thesis using inv by (simp add: retires_only_refl)
  next
    case (Some m)
    show ?thesis
    proof (cases "find (\<lambda>s. m k (key (mem t s)) key_len = 0) ?B")
      case None
      then have "t' = t"
        using uc wrapper_ht_unique_check_unlocked [OF h Some ul, of env k key_len] by simp
      then show ?thesis using inv by (simp add: retires_only_refl)
    next
      case (Some s)
      then have t': "t' = evict t s"
        using uc wrapper_ht_unique_check_unlocked [OF h \<open>match_fct t = Some m\<close> ul,
            of env k key_len]
        by simp
      from Some have "s \<in> set ?B"
        by (auto simp: find_Some_iff)
      then have "set [s] \<subseteq> set (concat (ht t))"
        using inv_bucket(3) [OF inv, of env] by auto
      then show ?thesis
        unfolding t' evict_def using inv by (intro retires_only_retire_all) auto
    qed
  qed
qed

lemma retires_only_destroy:
  assumes inv: "tracker_inv t"
  shows "retires_only t (retire_all (concat (ht t)) (t\<lparr>gc_timer := False\<rparr>))"
proof -
  have inv': "tracker_inv (t\<lparr>gc_timer := False\<rparr>)"
    using inv by (simp add: tracker_inv_def)
  have "retires_only (t\<lparr>gc_timer := False\<rparr>)
          ((retire_all (concat (ht (t\<lparr>gc_timer := False\<rparr>))) (t\<lparr>gc_timer := False\<rparr>))
             \<lparr>cb_log := cb_log t\<rparr>)"
    using inv' by (intro retires_only_retire_all) (auto simp: tracker_inv_def)
  moreover have "retires_only t (retire_all (concat (ht t)) (t\<lparr>gc_timer := False\<rparr>))
      \<longleftrightarrow> retires_only (t\<lparr>gc_timer := False\<rparr>)
            ((retire_all (concat (ht t)) (t\<lparr>gc_timer := False\<rparr>))\<lparr>cb_log := cb_log t\<rparr>)"
    by (rule retires_only_fields) (simp_all add: retire_all_def)
  ultimately show ?thesis by simp
qed

lemma retires_only_retire:
  assumes inv: "tracker_inv t" and s: "s \<in> set (concat (ht t))"
  shows "retires_only t (retire t s)"
proof -
  have "retires_only t ((retire_all [s] t)\<lparr>cb_log := cb_log t\<rparr>)"
    using inv s by (intro retires_only_retire_all) auto
  moreover have "retires_only t (retire t s)
      \<longleftrightarrow> retires_only t ((retire_all [s] t)\<lparr>cb_log := cb_log t\<rparr>)"
    unfolding retire_eq_retire_all by (rule retires_only_fields) (simp_all add: retire_all_def)
  ultimately show ?thesis by simp
qed

lemma close_after_close:
  assumes inv: "tracker_inv t"
    and out: "latency_tracker_event_out env (Some t) k key_len out_id now = Inr (0, Some t')"
  shows "latency_tracker_event_out env (Some t') k key_len out_id' now' = Inr (- 1, Some t')"
proof -
  have ul: "\<not> lock t" using inv by (simp add: tracker_inv_def)
  from out ul obtain h where h: "hash_fct t = Some h"
    by (auto simp: latency_tracker_event_out_def wrapper_ht_check_event_def
        spin_lock_irqsave_def split: option.splits sum.splits)
  let ?b = "bucket_of env t (h k (of_nat key_len) 0)"
  let ?B = "ht t ! ?b"
  obtain m where m: "match_fct t = Some m"
    using out check_event_no_match_fct [OF h _ ul, of env k key_len out_id now]
    by (cases "match_fct t")
      (auto simp: latency_tracker_event_out_def split: if_splits)
  let ?M = "matching m k key_len t ?B"
  have t': "t' = (retire_all ?M t)\<lparr>cb_log := cb_log t @ concat (map (close_entry out_id now t) ?M)\<rparr>"
    using out wrapper_ht_check_event_eq [OF h m inv, of env k key_len out_id now]
    by (simp add: latency_tracker_event_out_def)
  have h': "hash_fct t' = Some h" and m': "match_fct t' = Some m"
    using h m by (simp_all add: t' retire_all_def)
  have "distinct ?M"
    using inv_bucket(2) [OF inv] by (simp add: matching_def)
  moreover have "set ?M \<subseteq> set (concat (ht t))"
    using matching_subset [of m k key_len t ?B] inv_bucket(3) [OF inv, of env] by blast
  ultimately have inv': "tracker_inv t'"
    unfolding t' using inv by (intro inv_retire_all)
  have b': "bucket_of env t' (h k (of_nat key_len) 0) = ?b"
    by (simp add: bucket_of_def t' retire_all_def)
  have B': "ht t' ! ?b = filter (\<lambda>x. x \<notin> set ?M) ?B"
    using inv_bucket(1) [OF inv, of env] by (simp add: t' retire_all_def)
  have "matching m k key_len t' (ht t' ! ?b) = []"
    unfolding B' by (auto simp: matching_def filter_empty_conv t' retire_all_def)
  then show ?thesis
    using wrapper_ht_check_event_eq [OF h' m' inv', of env k key_len out_id' now']
    by (simp add: latency_tracker_event_out_def b' retire_all_Nil)
qed

lemma close_on_empty_index:
  assumes "hash_fct t \<noteq> None" and "ht t \<noteq> []" and "concat (ht t) = []" and "\<not> lock t"
  shows "latency_tracker_event_out env (Some t) k key_len out_id now = Inr (- 1, Some t)"
proof -
  from assms(1) obtain h where h: "hash_fct t = Some h" by auto
  have "bucket_of env t (h k (of_nat key_len) 0) < length (ht t)"
    using assms(2) by (rule bucket_of_less)
  then have "ht t ! bucket_of env t (h k (of_nat key_len) 0) \<in> set (ht t)"
    by simp
  then have "ht t ! bucket_of env t (h k (of_nat key_len) 0) = []"
    using assms(3) by simp
  then show ?thesis
    using h assms(4)
    by (simp add: latency_tracker_event_out_def wrapper_ht_check_event_def
        spin_lock_irqsave_def spin_unlock_irqrestore_def bucket_of_def unlocked_id)
qed

lemma distinct_count_list_1: "distinct xs \<Longrightarrow> x \<in> set xs \<Longrightarrow> count_list xs x = 1"
  by (induction xs) (auto simp: count_list_0_iff)

lemma retires_only_stays:
  assumes "retires_only t t'"
  shows "stays_retired t t'"
  unfolding stays_retired_def
proof (intro conjI ballI)
  show inv': "tracker_inv t'" and "set (concat (ht t')) \<subseteq> set (concat (ht t))"
    using assms by (simp_all add: retires_only_def)
  fix x assume "x \<in> set (events_free_list t)"
  then have x: "x \<in> set (events_free_list t')"
    using assms by (auto simp: retires_only_def)
  have d: "distinct (concat (ht t') @ events_free_list t')"
    using inv' by (simp add: tracker_inv_def)
  from d x show "x \<notin> set (concat (ht t'))"
    by (auto simp del: set_concat)
  from d x show "count_list (events_free_list t') x = 1"
    by (intro distinct_count_list_1) auto
qed

lemma event_in_plain_inv:
  assumes "tracker_inv t"
    and "latency_tracker_event_in env (Some t) k key_len thr f tmo 0 pr now = Inr (r, Some t')"
  shows "tracker_inv t'"
proof (cases "r = LATENCY_TRACKER_OK")
  case True
  then show ?thesis
    using event_in_plain_effect(7) [of env t k key_len thr f tmo pr now t'] assms by simp
next
  case False
  have ul: "\<not> lock t" using assms(1) by (simp add: tracker_inv_def)
  from False have "t' = t"
    using assms(2) ul
    by (auto simp: latency_tracker_event_in_def latency_tracker_get_event_def Let_def
        spin_lock_irqsave_def spin_unlock_irqrestore_def unlocked_id
        split: if_splits option.splits)
  then show ?thesis using assms(1) by simp
qed

text \<open>
  Well-formedness holds in every state a caller can reach: \<^verbatim>\<open>latency_tracker_create\<close>
  establishes it, and an open and the firing of a timeout keep it (the retiring triggers
  are covered by the first claim below).
\<close>
lemma tracker_inv_maintained:
  "latency_tracker_create env allocs module_ok match_arg hash_arg max_events period thr0 pr0
     = Some t0 \<Longrightarrow> tracker_inv t0"
  "tracker_inv t \<Longrightarrow>
     latency_tracker_event_in env (Some t) k key_len thr f tmo unique pr now = Inr (r, Some t')
     \<Longrightarrow> tracker_inv t'"
  "tracker_inv t \<Longrightarrow> latency_tracker_timeout_cb t s = Inr t' \<Longrightarrow> tracker_inv t'"
proof -
  show "latency_tracker_create env allocs module_ok match_arg hash_arg max_events period thr0 pr0
     = Some t0 \<Longrightarrow> tracker_inv t0"
    by (rule create_props(1))
  show "tracker_inv t'" if inv: "tracker_inv t"
    and ev: "latency_tracker_event_in env (Some t) k key_len thr f tmo unique pr now
               = Inr (r, Some t')"
  proof (cases "key_len \<le> LATENCY_TRACKER_MAX_KEY_SIZE env \<and> unique \<noteq> 0")
    case False
    then consider "key_len > LATENCY_TRACKER_MAX_KEY_SIZE env" | "unique = 0" by force
    then show ?thesis
    proof cases
      case 1
      then have "t' = t" using ev by (simp add: latency_tracker_event_in_def)
      then show ?thesis using inv by simp
    next
      case 2
      then show ?thesis using event_in_plain_inv [OF inv] ev by simp
    qed
  next
    case True
    have ul: "\<not> lock t" using inv by (simp add: tracker_inv_def)
    from True ul obtain t1 where
      uc: "wrapper_ht_unique_check env (t\<lparr>lock := True\<rparr>) k key_len = Inr t1"
      using ev by (cases "wrapper_ht_unique_check env (t\<lparr>lock := True\<rparr>) k key_len")
        (auto simp: latency_tracker_event_in_def spin_lock_irqsave_def)
    have "latency_tracker_event_in env (Some t) k key_len thr f tmo 0 pr now
            = Inr (r, Some t')"
      using event_in_after_unique [of key_len env unique t k t1 thr f tmo pr now] True ul uc ev
      by simp
    then show ?thesis
      by (rule event_in_plain_inv [OF inv])
  qed
  show "tracker_inv t'" if "tracker_inv t" and "latency_tracker_timeout_cb t s = Inr t'"
  proof -
    have "ht t' = ht t \<and> events_free_list t' = events_free_list t \<and> lock t' = lock t"
      using that(2)
      by (auto simp: latency_tracker_timeout_cb_def del_timer_def Let_def split: option.splits)
    then show ?thesis
      using that(1) by (simp add: tracker_inv_def)
  qed
qed

subsection \<open>The example inputs, run\<close>

lemmas ex_defs = trk_new3_def trk_two_def trk_cap1_def trk_full_def trk_gc_new_def trk_young_def
  trk_nofn_def example_tracker_def example_event_def env0_def key1_def key2_def call1_def
  user_hash_def user_match_def zero_event_def call2_def trk_closed1_def trk_evicted_def
  trk_swept_def trk_timed_nocb_def trk_timed_def trk_evicting_def

lemmas run_defs = latency_tracker_event_in_def latency_tracker_get_event_def wrapper_ht_add_def
  bucket_of_def latency_tracker_event_out_def wrapper_ht_check_event_def
  wrapper_ht_unique_check_def latency_tracker_event_destroy_def spin_lock_irqsave_def
  spin_unlock_irqrestore_def wrapper_ht_del_def del_timer_def latency_tracker_put_event_def
  call_cb_if_set_eq Let_def memcpy_def event_in_call_def evicts_def

lemma create_trk_new3:
  "latency_tracker_create env0 4 True None None 3 0 0 0 = Some trk_new3"
  by (simp add: latency_tracker_create_def DEFAULT_MAX_ALLOC_EVENTS_def wrapper_ht_init_def
      latency_tracker_enable_gc_def Let_def upt_rec numeral_2_eq_2 kzalloc_tracker_def trk_new3_def
      example_tracker_def env0_def)

lemma create_trk_cap1:
  "latency_tracker_create env0 2 True None None 1 0 0 0 = Some trk_cap1"
  by (simp add: latency_tracker_create_def DEFAULT_MAX_ALLOC_EVENTS_def wrapper_ht_init_def
      latency_tracker_enable_gc_def Let_def upt_rec numeral_2_eq_2 kzalloc_tracker_def trk_cap1_def
      example_tracker_def env0_def)

lemma create_trk_gc_new:
  "latency_tracker_create env0 3 True None None 2 10 100 0 = Some trk_gc_new"
  by (simp add: latency_tracker_create_def DEFAULT_MAX_ALLOC_EVENTS_def wrapper_ht_init_def
      latency_tracker_enable_gc_def Let_def upt_rec numeral_2_eq_2 kzalloc_tracker_def trk_gc_new_def
      example_tracker_def env0_def)

lemma open_trk_cap1:
  "latency_tracker_event_in env0 (Some trk_cap1) key1 4 6 (Some 7) 0 0 0 100
     = Inr (LATENCY_TRACKER_OK, Some trk_full)"
  by (simp add: run_defs ex_defs)

lemma opens_trk_new3: "opens_ok env0 trk_new3 [call1, call2] = Some trk_two"
  by (simp add: run_defs ex_defs)

lemma opens_trk_cap1: "opens_ok env0 trk_cap1 [call1] = Some trk_full"
  by (simp add: run_defs ex_defs)

lemma close_trk_two:
  "latency_tracker_event_out env0 (Some trk_two) key1 4 9 200 = Inr (0, Some trk_closed1)"
  by (simp add: run_defs ex_defs)

lemma open_trk_gc_new:
  "latency_tracker_event_in env0 (Some trk_gc_new) key1 4 6 (Some 7) 0 0 0 1000
       = Inr (LATENCY_TRACKER_OK, Some trk_young)"
  by (simp add: run_defs ex_defs)

lemma inv_trk_two: "tracker_inv trk_two"
  by (simp add: tracker_inv_def ex_defs)

lemma inv_trk_young: "tracker_inv trk_young"
  by (simp add: tracker_inv_def ex_defs)

lemma timeout_cb_with_callback:
  assumes "cb (mem t s) = Some f"
  shows "\<exists>t'. latency_tracker_timeout_cb t s = Inr t'
           \<and> cb_log t' = cb_log t @
               [(f, s, (mem t s)\<lparr>timer := False, cb_flag := LATENCY_TRACKER_CB_TIMEOUT,
                                  timeout := 0\<rparr>)]
           \<and> ht t' = ht t
           \<and> events_free_list t' = events_free_list t
           \<and> mem t' = (mem t)(s := (mem t s)\<lparr>timer := False,
                                   cb_flag := LATENCY_TRACKER_CB_TIMEOUT, timeout := 0\<rparr>)"
  using assms by (simp add: latency_tracker_timeout_cb_def del_timer_def Let_def)

lemma timeout_cb_without_callback:
  "cb (mem t s) = None \<Longrightarrow> latency_tracker_timeout_cb t s = Inl NullCall"
  by (simp add: latency_tracker_timeout_cb_def del_timer_def Let_def)

section \<open>The claims\<close>

subsection \<open>Retirement\<close>

text \<open>
  C1. Retirement (\<^verbatim>\<open>latency_tracker_event_destroy\<close>: unlink from the table, give the
  record back to the free list) happens once per event lifetime. In every well-formed
  tracker state:
  \<^item> retiring an open event returns, takes it off the table and puts it on the free list
    exactly once, and the state stays well-formed;
  \<^item> none of the triggers retires a record again that has already been retired: after an
    explicit close (\<^verbatim>\<open>latency_tracker_event_out\<close>), after the sweep \<^verbatim>\<open>wrapper_ht_gc\<close>,
    after the timer function \<^verbatim>\<open>latency_tracker_gc_cb\<close> that runs the sweep under the
    lock, after the duplicate-key check \<^verbatim>\<open>wrapper_ht_unique_check\<close>, and after
    \<^verbatim>\<open>latency_tracker_destroy\<close>, every record that was on the free list is still off the
    table and on the free list exactly once, no record has entered the table, and the
    state is well-formed;
  \<^item> a later close of the same key observes "not found": after a close that found the
    key, and after a sweep, closing that key again returns -1 and changes nothing.
  The sweep and \<^verbatim>\<open>latency_tracker_destroy\<close> always return from a well-formed state when
  they are entered with the lock free. A trigger that retires while its caller holds the
  lock (the sweep under \<^verbatim>\<open>latency_tracker_gc_cb\<close>, the eviction under
  \<^verbatim>\<open>latency_tracker_event_in\<close>) does not return and retires nothing; that is the subject
  of C2 and C7, and it leaves the property stated here, that nothing is retired twice,
  untouched.
\<close>
theorem retirement_happens_once:
  assumes inv: "tracker_inv t"
  shows "(s \<in> set (concat (ht t)) \<longrightarrow>
            (\<exists>tr. latency_tracker_event_destroy t s = Inr tr
               \<and> tracker_inv tr
               \<and> s \<notin> set (concat (ht tr))
               \<and> count_list (events_free_list tr) s = 1))
         \<and> (latency_tracker_event_out env (Some t) k key_len out_id now = Inr (r, Some t1) \<longrightarrow>
              stays_retired t t1)
         \<and> (\<exists>tg. wrapper_ht_gc t now = Inr tg
               \<and> stays_retired t tg
               \<and> (hash_fct t \<noteq> None \<longrightarrow>
                    latency_tracker_event_out env (Some tg) k key_len out_id' now'
                      = Inr (- 1, Some tg)))
         \<and> (latency_tracker_gc_cb t now = Inr t3 \<longrightarrow>
              stays_retired t t3
              \<and> (hash_fct t \<noteq> None \<longrightarrow>
                   latency_tracker_event_out env (Some t3) k key_len out_id' now'
                     = Inr (- 1, Some t3)))
         \<and> (wrapper_ht_unique_check env t k key_len = Inr t2 \<longrightarrow> stays_retired t t2)
         \<and> (\<exists>n td. latency_tracker_destroy t = Inr (n, td) \<and> stays_retired t td)
         \<and> (latency_tracker_event_out env (Some t) k key_len out_id now = Inr (0, Some t1) \<longrightarrow>
              latency_tracker_event_out env (Some t1) k key_len out_id' now'
                = Inr (- 1, Some t1))"
proof (intro conjI impI)
  assume s: "s \<in> set (concat (ht t))"
  let ?t = "retire t s"
  have ul: "\<not> lock t" using inv by (simp add: tracker_inv_def)
  from retires_only_retire [OF inv s]
  have inv': "tracker_inv ?t" by (simp add: retires_only_def)
  have fl: "s \<in> set (events_free_list ?t)" by (simp add: retire_def)
  have d: "distinct (concat (ht ?t) @ events_free_list ?t)"
    using inv' by (simp add: tracker_inv_def)
  from d fl have "s \<notin> set (concat (ht ?t))"
    by (auto simp del: set_concat)
  moreover from d fl have "count_list (events_free_list ?t) s = 1"
    by (intro distinct_count_list_1) auto
  ultimately show "\<exists>tr. latency_tracker_event_destroy t s = Inr tr
               \<and> tracker_inv tr
               \<and> s \<notin> set (concat (ht tr))
               \<and> count_list (events_free_list tr) s = 1"
    using event_destroy_unlocked [OF ul, of s] inv' by blast
next
  assume "latency_tracker_event_out env (Some t) k key_len out_id now = Inr (r, Some t1)"
  then show "stays_retired t t1"
    by (intro retires_only_stays retires_only_event_out [OF inv])
next
  from retires_only_gc [OF inv, of now] obtain tg where
    g: "wrapper_ht_gc t now = Inr tg" and ro: "retires_only t tg"
    and ht: "ht tg = map (\<lambda>_. []) (ht t)" and hf: "hash_fct tg = hash_fct t"
    by blast
  have invg: "tracker_inv tg" using ro by (simp add: retires_only_def)
  have "latency_tracker_event_out env (Some tg) k key_len out_id' now' = Inr (- 1, Some tg)"
    if "hash_fct t \<noteq> None"
  proof (rule close_on_empty_index)
    show "hash_fct tg \<noteq> None" using that hf by simp
    show "ht tg \<noteq> []" using invg by (simp add: tracker_inv_def)
    show "concat (ht tg) = []" by (simp add: ht)
    show "\<not> lock tg" using invg by (simp add: tracker_inv_def)
  qed
  then show "\<exists>tg. wrapper_ht_gc t now = Inr tg
               \<and> stays_retired t tg
               \<and> (hash_fct t \<noteq> None \<longrightarrow>
                    latency_tracker_event_out env (Some tg) k key_len out_id' now'
                      = Inr (- 1, Some tg))"
    using g retires_only_stays [OF ro] by blast
next
  assume "latency_tracker_gc_cb t now = Inr t3"
  then show "stays_retired t t3"
    by (intro retires_only_stays retires_only_gc_cb(1) [OF inv])
next
  assume g: "latency_tracker_gc_cb t now = Inr t3" and h: "hash_fct t \<noteq> None"
  note r = retires_only_gc_cb [OF inv g]
  have inv3: "tracker_inv t3" using r(1) by (simp add: retires_only_def)
  show "latency_tracker_event_out env (Some t3) k key_len out_id' now' = Inr (- 1, Some t3)"
  proof (rule close_on_empty_index)
    show "hash_fct t3 \<noteq> None" using h r(3) by simp
    show "ht t3 \<noteq> []" using inv3 by (simp add: tracker_inv_def)
    show "concat (ht t3) = []" by (simp add: r(2))
    show "\<not> lock t3" using inv3 by (simp add: tracker_inv_def)
  qed
next
  assume "wrapper_ht_unique_check env t k key_len = Inr t2"
  then show "stays_retired t t2"
    by (intro retires_only_stays retires_only_unique_check [OF inv])
next
  show "\<exists>n td. latency_tracker_destroy t = Inr (n, td) \<and> stays_retired t td"
    using destroy_eq [OF inv] retires_only_stays [OF retires_only_destroy [OF inv]] by blast
next
  assume "latency_tracker_event_out env (Some t) k key_len out_id now = Inr (0, Some t1)"
  then show "latency_tracker_event_out env (Some t1) k key_len out_id' now'
                = Inr (- 1, Some t1)"
    by (rule close_after_close [OF inv])
qed

theorem retirement_happens_once_witness:
  "tracker_inv trk_two
   \<and> 0 \<in> set (concat (ht trk_two))
   \<and> (\<exists>tr. latency_tracker_event_destroy trk_two 0 = Inr tr
          \<and> tracker_inv tr
          \<and> 0 \<notin> set (concat (ht tr))
          \<and> count_list (events_free_list tr) 0 = 1)
   \<and> latency_tracker_event_out env0 (Some trk_two) key1 4 9 200 = Inr (0, Some trk_closed1)
   \<and> stays_retired trk_two trk_closed1
   \<and> latency_tracker_event_out env0 (Some trk_closed1) key1 4 9 300
       = Inr (- 1, Some trk_closed1)
   \<and> (\<exists>tg. wrapper_ht_gc trk_two 200 = Inr tg \<and> stays_retired trk_two tg
          \<and> latency_tracker_event_out env0 (Some tg) key1 4 9 300 = Inr (- 1, Some tg))
   \<and> (\<exists>n td. latency_tracker_destroy trk_two = Inr (n, td) \<and> stays_retired trk_two td)"
proof -
  have s: "0 \<in> set (concat (ht trk_two))" and h: "hash_fct trk_two \<noteq> None"
    by (simp_all add: ex_defs)
  from retirement_happens_once [OF inv_trk_two, where s = 0 and env = env0 and k = key1
      and key_len = 4 and out_id = 9 and now = 200 and r = 0 and ?t1.0 = trk_closed1
      and out_id' = 9 and now' = 300] s h close_trk_two
  have "(\<exists>tr. latency_tracker_event_destroy trk_two 0 = Inr tr
          \<and> tracker_inv tr
          \<and> 0 \<notin> set (concat (ht tr))
          \<and> count_list (events_free_list tr) 0 = 1)
   \<and> stays_retired trk_two trk_closed1
   \<and> latency_tracker_event_out env0 (Some trk_closed1) key1 4 9 300
       = Inr (- 1, Some trk_closed1)
   \<and> (\<exists>tg. wrapper_ht_gc trk_two 200 = Inr tg \<and> stays_retired trk_two tg
          \<and> latency_tracker_event_out env0 (Some tg) key1 4 9 300 = Inr (- 1, Some tg))
   \<and> (\<exists>n td. latency_tracker_destroy trk_two = Inr (n, td) \<and> stays_retired trk_two td)"
    by blast
  then show ?thesis
    using inv_trk_two s close_trk_two by blast
qed

subsection \<open>The sweep of the garbage collector\<close>

text \<open>
  C2. A sweep is to retire the events older than \<^verbatim>\<open>gc_thresh\<close>, with a callback call
  flagged \<^verbatim>\<open>LATENCY_TRACKER_CB_GC\<close>, and to leave the younger ones in the index. The code
  does neither, for two reasons. First, \<^verbatim>\<open>wrapper_ht_gc\<close> tests the age around the
  callback only and calls \<^verbatim>\<open>latency_tracker_event_destroy\<close> on every event it visits.
  Second, the timer function \<^verbatim>\<open>latency_tracker_gc_cb\<close> holds \<^verbatim>\<open>tracker->lock\<close> around the
  sweep and \<^verbatim>\<open>latency_tracker_event_destroy\<close> takes the same lock again, so the first
  event the sweep visits stops it for good. Run on the example: a tracker created with a
  period of 10 and a threshold of 100, and \<open>key1\<close> opened at time 1000.
  \<^item> The sweep as the timer runs it, \<^verbatim>\<open>latency_tracker_gc_cb\<close>, does not return: not at
    time 1050, when the event is 50 old and is to stay, and not at time 2000, when the
    event is 1000 old and is to be retired.
  \<^item> \<^verbatim>\<open>wrapper_ht_gc\<close> on its own, entered with the lock free at time 1050, calls no
    callback, yet the event has left the table, its record is zeroed and back on the
    free list, and a close of \<open>key1\<close> right after finds nothing.
\<close>
theorem gc_sweep_retires_young_event:
  "latency_tracker_create env0 3 True None None 2 10 100 0 = Some trk_gc_new
   \<and> latency_tracker_event_in env0 (Some trk_gc_new) key1 4 6 (Some 7) 0 0 0 1000
       = Inr (LATENCY_TRACKER_OK, Some trk_young)
   \<and> ht trk_young = [[], [0]]
   \<and> gc_thresh trk_young = 100
   \<and> 1050 - start_ts (mem trk_young 0) = 50
   \<and> latency_tracker_gc_cb trk_young 1050 = Inl Deadlock
   \<and> latency_tracker_gc_cb trk_young 2000 = Inl Deadlock
   \<and> wrapper_ht_gc trk_young 1050 = Inr trk_swept
   \<and> ht trk_swept = [[], []]
   \<and> events_free_list trk_swept = [0, 1]
   \<and> mem trk_swept 0 = zero_event
   \<and> cb_log trk_swept = []
   \<and> latency_tracker_event_out env0 (Some trk_swept) key1 4 0 1060
       = Inr (- 1, Some trk_swept)"
proof -
  have ul: "\<not> lock trk_young" and d: "distinct (concat (ht trk_young))"
    and ne: "concat (ht trk_young) \<noteq> []"
    by (simp_all add: ex_defs)
  have g: "wrapper_ht_gc trk_young 1050 = Inr trk_swept"
    unfolding wrapper_ht_gc_eq [OF ul d]
    by (simp add: retire_all_def gc_entry_def ex_defs fun_eq_iff)
  have dl: "latency_tracker_gc_cb trk_young now = Inl Deadlock" for now
    unfolding gc_cb_eq [OF ul] using ne by simp
  have c: "latency_tracker_event_out env0 (Some trk_swept) key1 4 0 1060
             = Inr (- 1, Some trk_swept)"
    by (simp add: run_defs ex_defs)
  show ?thesis
    using create_trk_gc_new open_trk_gc_new g dl c
    by (simp add: trk_young_def trk_swept_def example_tracker_def example_event_def)
qed

subsection \<open>The functions given to create\<close>

text \<open>
  C3. A tracker is to hash and compare keys with the functions passed to create, and with
  \<^verbatim>\<open>jhash\<close> and \<^verbatim>\<open>memcmp\<close> when none is passed. The code does the second and not the
  first: \<^verbatim>\<open>latency_tracker_create\<close> writes \<^verbatim>\<open>tracker->hash_fct\<close> and
  \<^verbatim>\<open>tracker->match_fct\<close> only when the argument is NULL (then with \<^verbatim>\<open>jhash\<close> and
  \<^verbatim>\<open>memcmp\<close>); a supplied function is never stored, and the zeroed tracker keeps a NULL
  pointer in its place. Run on the example: created with \<open>user_match\<close> and \<open>user_hash\<close>, the
  tracker holds neither, and the first open or close calls through NULL.
\<close>
theorem supplied_functions_are_dropped:
  "latency_tracker_create env0 4 True (Some user_match) (Some user_hash) 3 0 0 0 = Some trk_nofn
   \<and> hash_fct trk_nofn = None \<and> match_fct trk_nofn = None
   \<and> latency_tracker_event_in env0 (Some trk_nofn) key1 4 6 (Some 7) 0 0 0 100 = Inl NullCall
   \<and> latency_tracker_event_out env0 (Some trk_nofn) key1 4 0 200 = Inl NullCall"
  by (simp add: latency_tracker_create_def DEFAULT_MAX_ALLOC_EVENTS_def wrapper_ht_init_def
      latency_tracker_enable_gc_def upt_rec numeral_2_eq_2 kzalloc_tracker_def run_defs
      trk_nofn_def env0_def)

subsection \<open>The capacity of the pool\<close>

text \<open>
  C4, as amended. Take a tracker created with a pool of C records (100 when
  \<open>max_events\<close> is 0) and C opens that each returned \<^verbatim>\<open>LATENCY_TRACKER_OK\<close>, with nothing
  retired in between. Then the next open with a valid key length that finds no duplicate
  to evict returns \<^verbatim>\<open>LATENCY_TRACKER_FULL\<close> and hands the tracker back exactly as it was:
  no event is created, table, free list and records are unchanged, the lock is free
  again, and no callback is called. And once one open event has been retired, the next
  open with a valid key length that finds no duplicate to evict returns
  \<^verbatim>\<open>LATENCY_TRACKER_OK\<close>.
\<close>
theorem full_pool_rejects_then_recovers:
  assumes cr: "latency_tracker_create env allocs module_ok match_arg hash_arg max_events period
                 thr0 pr0 = Some t0"
    and ops: "opens_ok env t0 cs = Some t"
    and n: "length cs = nat (if max_events = 0 then DEFAULT_MAX_ALLOC_EVENTS else max_events)"
    and kl: "key_len \<le> LATENCY_TRACKER_MAX_KEY_SIZE env"
  shows "(\<not> evicts env t k key_len unique \<longrightarrow>
            latency_tracker_event_in env (Some t) k key_len thr f tmo unique pr now
              = Inr (LATENCY_TRACKER_FULL, Some t))
         \<and> (s \<in> set (concat (ht t)) \<longrightarrow>
            (\<exists>tr. latency_tracker_event_destroy t s = Inr tr
               \<and> (\<not> evicts env tr k key_len unique \<longrightarrow>
                    (\<exists>t'. latency_tracker_event_in env (Some tr) k key_len thr f tmo unique
                             pr now
                           = Inr (LATENCY_TRACKER_OK, Some t')))))"
proof (intro conjI impI)
  note c = create_props [OF cr]
  have ul0: "\<not> lock t0" using c(1) by (simp add: tracker_inv_def)
  note e = opens_ok_effect [OF ops ul0]
  have empty: "events_free_list t = []"
    using e c(4) n by simp
  have ul: "\<not> lock t" using e by simp
  {
    assume "\<not> evicts env t k key_len unique"
    then show "latency_tracker_event_in env (Some t) k key_len thr f tmo unique pr now
              = Inr (LATENCY_TRACKER_FULL, Some t)"
      using event_in_plain_full [OF kl empty ul] ul by (simp add: event_in_no_evict)
  }
  {
    assume a: "s \<in> set (concat (ht t))"
    let ?r = "retire t s"
    have ne: "ht t0 \<noteq> []" using c(1) by (simp add: tracker_inv_def)
    have "length (concat (ht t)) = length cs"
      using e c(2) ne by simp
    moreover from a have "0 < length (concat (ht t))" by (rule length_pos_if_in_set)
    ultimately have "cs \<noteq> []" by auto
    then obtain h where h: "hash_fct t = Some h"
      using e by auto
    have hr: "hash_fct ?r = Some h" and fr: "events_free_list ?r \<noteq> []"
      and ulr: "\<not> lock ?r"
      using h ul by (simp_all add: retire_def)
    have "\<exists>t'. latency_tracker_event_in env (Some ?r) k key_len thr f tmo unique pr now
                   = Inr (LATENCY_TRACKER_OK, Some t')"
      if "\<not> evicts env ?r k key_len unique"
      using event_in_plain_ok [OF kl fr hr ulr, of k thr f tmo pr now]
        event_in_no_evict [OF that ulr, of thr f tmo pr now]
      by auto
    then show "\<exists>tr. latency_tracker_event_destroy t s = Inr tr
               \<and> (\<not> evicts env tr k key_len unique \<longrightarrow>
                    (\<exists>t'. latency_tracker_event_in env (Some tr) k key_len thr f tmo unique
                             pr now
                           = Inr (LATENCY_TRACKER_OK, Some t')))"
      using event_destroy_unlocked [OF ul, of s] by blast
  }
qed

theorem full_pool_rejects_then_recovers_witness:
  "latency_tracker_create env0 2 True None None 1 0 0 0 = Some trk_cap1
   \<and> opens_ok env0 trk_cap1 [call1] = Some trk_full
   \<and> length [call1] = nat (if (1::int) = 0 then DEFAULT_MAX_ALLOC_EVENTS else 1)
   \<and> (4::nat) \<le> LATENCY_TRACKER_MAX_KEY_SIZE env0
   \<and> \<not> evicts env0 trk_full key2 4 1
   \<and> latency_tracker_event_in env0 (Some trk_full) key2 4 400 (Some 7) 0 1 0 300
       = Inr (LATENCY_TRACKER_FULL, Some trk_full)
   \<and> 0 \<in> set (concat (ht trk_full))
   \<and> (\<exists>tr. latency_tracker_event_destroy trk_full 0 = Inr tr
          \<and> \<not> evicts env0 tr key2 4 1
          \<and> (\<exists>t'. latency_tracker_event_in env0 (Some tr) key2 4 400 (Some 7) 0 1 0 300
                    = Inr (LATENCY_TRACKER_OK, Some t')))"
proof -
  have n: "length [call1] = nat (if (1::int) = 0 then DEFAULT_MAX_ALLOC_EVENTS else 1)"
    and kl: "(4::nat) \<le> LATENCY_TRACKER_MAX_KEY_SIZE env0"
    and ne: "\<not> evicts env0 trk_full key2 4 1"
    and s: "0 \<in> set (concat (ht trk_full))"
    by (simp_all add: run_defs ex_defs)
  have ul: "\<not> lock trk_full" by (simp add: ex_defs)
  have d: "latency_tracker_event_destroy trk_full 0 = Inr (retire trk_full 0)"
    using ul by (rule event_destroy_unlocked)
  have ner: "\<not> evicts env0 (retire trk_full 0) key2 4 1"
    by (simp add: retire_def evicts_def wrapper_ht_unique_check_def bucket_of_def ex_defs)
  from full_pool_rejects_then_recovers [OF create_trk_cap1 opens_trk_cap1 n kl,
        where k = key2 and unique = 1 and thr = 400 and f = "Some 7" and tmo = 0 and pr = 0
          and now = 300 and s = 0] ne s
  have "latency_tracker_event_in env0 (Some trk_full) key2 4 400 (Some 7) 0 1 0 300
       = Inr (LATENCY_TRACKER_FULL, Some trk_full)
   \<and> (\<exists>tr. latency_tracker_event_destroy trk_full 0 = Inr tr
          \<and> (\<not> evicts env0 tr key2 4 1 \<longrightarrow>
                (\<exists>t'. latency_tracker_event_in env0 (Some tr) key2 4 400 (Some 7) 0 1 0 300
                    = Inr (LATENCY_TRACKER_OK, Some t'))))"
    by blast
  then have "latency_tracker_event_in env0 (Some trk_full) key2 4 400 (Some 7) 0 1 0 300
       = Inr (LATENCY_TRACKER_FULL, Some trk_full)
   \<and> (\<exists>tr. latency_tracker_event_destroy trk_full 0 = Inr tr
          \<and> \<not> evicts env0 tr key2 4 1
          \<and> (\<exists>t'. latency_tracker_event_in env0 (Some tr) key2 4 400 (Some 7) 0 1 0 300
                    = Inr (LATENCY_TRACKER_OK, Some t')))"
    unfolding d using ner by auto
  then show ?thesis
    using create_trk_cap1 opens_trk_cap1 n kl ne s by blast
qed

text \<open>
  C4 as stated fails on a full pool for two kinds of open. An open with a key of 17 bytes
  returns \<^verbatim>\<open>LATENCY_TRACKER_ERR\<close>, on the full tracker as on any other: the key length is
  checked first. And an open with \<open>unique\<close> set whose key is already open does not return
  \<^verbatim>\<open>LATENCY_TRACKER_FULL\<close> either: the duplicate-key check runs before a record is asked
  from the pool, finds the open event, and stops in \<^verbatim>\<open>latency_tracker_event_destroy\<close>
  on the lock its caller holds (C7). Run on the tracker of one record, full after \<open>key1\<close>
  was opened.
\<close>
theorem full_pool_unique_open_counterexample:
  "latency_tracker_create env0 2 True None None 1 0 0 0 = Some trk_cap1
   \<and> latency_tracker_event_in env0 (Some trk_cap1) key1 4 6 (Some 7) 0 0 0 100
       = Inr (LATENCY_TRACKER_OK, Some trk_full)
   \<and> events_free_list trk_full = []
   \<and> latency_tracker_event_in env0 (Some trk_full) key2 17 6 (Some 8) 0 0 0 200
       = Inr (LATENCY_TRACKER_ERR, Some trk_full)
   \<and> latency_tracker_event_in env0 (Some trk_full) key1 4 6 (Some 8) 0 1 0 200
       = Inl Deadlock"
proof -
  have "latency_tracker_event_in env0 (Some trk_full) key1 4 6 (Some 8) 0 1 0 200
       = Inl Deadlock"
    by (simp add: run_defs ex_defs)
  moreover have "latency_tracker_event_in env0 (Some trk_full) key2 17 6 (Some 8) 0 0 0 200
       = Inr (LATENCY_TRACKER_ERR, Some trk_full)"
    by (simp add: latency_tracker_event_in_def env0_def)
  ultimately show ?thesis
    using create_trk_cap1 open_trk_cap1
    by (simp add: trk_full_def example_tracker_def)
qed

subsection \<open>Closing an event\<close>

text \<open>
  C5. \<^verbatim>\<open>latency_tracker_event_out\<close> on a well-formed tracker walks the bucket of the
  key's hash; \<open>M\<close> below are the events of that bucket whose key \<^verbatim>\<open>match_fct\<close> finds equal.
  For each of them, in bucket order: if \<open>now - start_ts > thresh\<close> its callback (when it
  has one) is called with \<^verbatim>\<open>end_ts = now\<close>, \<^verbatim>\<open>cb_flag = LATENCY_TRACKER_CB_NORMAL\<close> and
  \<^verbatim>\<open>cb_out_id = id\<close>, otherwise no callback is called (\<open>close_entry\<close>); in both cases the
  event is unlinked from the table, its record zeroed and pushed on the free list.
  Nothing else changes. The call returns 0 (found) if and only if some event matched,
  and -1 otherwise. The walk holds the lock and releases it around each
  \<^verbatim>\<open>latency_tracker_event_destroy\<close>, so the call returns, with the lock free.
\<close>
theorem close_event_contract:
  assumes "tracker_inv t" and "hash_fct t = Some h" and "match_fct t = Some m"
  shows "let M = matching m k key_len t (ht t ! bucket_of env t (h k (of_nat key_len) 0))
         in \<exists>t'. latency_tracker_event_out env (Some t) k key_len out_id now
                    = Inr (if M = [] then - 1 else 0, Some t')
              \<and> cb_log t' = cb_log t @ concat (map (close_entry out_id now t) M)
              \<and> ht t' = map (filter (\<lambda>x. x \<notin> set M)) (ht t)
              \<and> events_free_list t' = rev M @ events_free_list t
              \<and> mem t' = (\<lambda>x. if x \<in> set M then zero_event else mem t x)
              \<and> \<not> lock t'"
  using wrapper_ht_check_event_eq [OF assms(2,3,1), of env k key_len out_id now] assms(1)
  by (simp add: latency_tracker_event_out_def Let_def retire_all_def tracker_inv_def)

theorem close_event_contract_witness:
  "tracker_inv trk_two \<and> hash_fct trk_two = Some (jhash env0)
   \<and> match_fct trk_two = Some (memcmp env0)
   \<and> (\<exists>t'. latency_tracker_event_out env0 (Some trk_two) key1 4 9 200 = Inr (0, Some t')
          \<and> cb_log t' = [(7, 0, (example_event key1 1 100 6 7)\<lparr>end_ts := 200,
                             cb_flag := LATENCY_TRACKER_CB_NORMAL, cb_out_id := 9\<rparr>)]
          \<and> ht t' = [[1], []] \<and> events_free_list t' = [0, 2])
   \<and> (\<exists>t'. latency_tracker_event_out env0 (Some trk_two) key2 4 9 200 = Inr (0, Some t')
          \<and> cb_log t' = [] \<and> ht t' = [[], [0]] \<and> events_free_list t' = [1, 2])"
proof -
  have h: "hash_fct trk_two = Some (jhash env0)" and m: "match_fct trk_two = Some (memcmp env0)"
    by (simp_all add: ex_defs)
  have M1: "matching (memcmp env0) key1 4 trk_two
              (ht trk_two ! bucket_of env0 trk_two (jhash env0 key1 (of_nat 4) 0)) = [0]"
    and M2: "matching (memcmp env0) key2 4 trk_two
              (ht trk_two ! bucket_of env0 trk_two (jhash env0 key2 (of_nat 4) 0)) = [1]"
    by (simp_all add: matching_def bucket_of_def memcpy_def ex_defs)
  have v1: "cb_log trk_two @ concat (map (close_entry 9 200 trk_two) [0])
              = [(7, 0, (example_event key1 1 100 6 7)\<lparr>end_ts := 200,
                   cb_flag := LATENCY_TRACKER_CB_NORMAL, cb_out_id := 9\<rparr>)]"
    and v2: "cb_log trk_two @ concat (map (close_entry 9 200 trk_two) [1]) = []"
    and v3: "map (filter (\<lambda>x. x \<notin> set [0])) (ht trk_two) = [[1], []]"
    and v4: "map (filter (\<lambda>x. x \<notin> set [1])) (ht trk_two) = [[], [0]]"
    and v5: "events_free_list trk_two = [2]"
    by (simp_all add: close_entry_def ex_defs)
  from close_event_contract [OF inv_trk_two h m, of key1 4 env0 9 200]
  have e1: "\<exists>t'. latency_tracker_event_out env0 (Some trk_two) key1 4 9 200 = Inr (0, Some t')
          \<and> cb_log t' = [(7, 0, (example_event key1 1 100 6 7)\<lparr>end_ts := 200,
                             cb_flag := LATENCY_TRACKER_CB_NORMAL, cb_out_id := 9\<rparr>)]
          \<and> ht t' = [[1], []] \<and> events_free_list t' = [0, 2]"
    unfolding Let_def M1 v1 v3 v5 by auto
  from close_event_contract [OF inv_trk_two h m, of key2 4 env0 9 200]
  have e2: "\<exists>t'. latency_tracker_event_out env0 (Some trk_two) key2 4 9 200 = Inr (0, Some t')
          \<and> cb_log t' = [] \<and> ht t' = [[], [0]] \<and> events_free_list t' = [1, 2]"
    unfolding Let_def M2 v2 v4 v5 by auto
  show ?thesis
    using inv_trk_two h m e1 e2 by blast
qed

subsection \<open>The timeout of an event\<close>

text \<open>
  C6. When the timer of an event fires, \<^verbatim>\<open>latency_tracker_timeout_cb\<close> is to set the flag,
  clear the timeout and call the callback, and to leave table and pool as they are. It
  does so for an event that has a callback. But \<^verbatim>\<open>latency_tracker_event_in\<close> accepts
  \<^verbatim>\<open>cb = NULL\<close> together with \<^verbatim>\<open>timeout > 0\<close> and arms the timer all the same, and
  \<^verbatim>\<open>latency_tracker_timeout_cb\<close> calls \<^verbatim>\<open>data->cb\<close> without the test \<^verbatim>\<open>if (s->cb)\<close> that
  the close, sweep and duplicate-key paths make. Run on the example: on the fresh tracker
  of one record, \<open>key1\<close> is opened at time 100 with a timeout of 50 and no callback; the
  open returns \<^verbatim>\<open>LATENCY_TRACKER_OK\<close> with the timer armed, and the firing of that timer
  calls through NULL.
\<close>
theorem timeout_fires_through_null_callback:
  "latency_tracker_create env0 2 True None None 1 0 0 0 = Some trk_cap1
   \<and> latency_tracker_event_in env0 (Some trk_cap1) key1 4 6 None 50 0 0 100
       = Inr (LATENCY_TRACKER_OK, Some trk_timed_nocb)
   \<and> ht trk_timed_nocb = [[], [0]]
   \<and> timer (mem trk_timed_nocb 0)
   \<and> timeout (mem trk_timed_nocb 0) = 50
   \<and> cb (mem trk_timed_nocb 0) = None
   \<and> latency_tracker_timeout_cb trk_timed_nocb 0 = Inl NullCall"
proof -
  have "latency_tracker_event_in env0 (Some trk_cap1) key1 4 6 None 50 0 0 100
       = Inr (LATENCY_TRACKER_OK, Some trk_timed_nocb)"
    by (simp add: run_defs ex_defs)
  moreover have "latency_tracker_timeout_cb trk_timed_nocb 0 = Inl NullCall"
    by (simp add: latency_tracker_timeout_cb_def del_timer_def Let_def ex_defs)
  ultimately show ?thesis
    using create_trk_cap1
    by (simp add: trk_timed_nocb_def example_tracker_def example_event_def)
qed

subsection \<open>Opening with the unique property\<close>

text \<open>
  C7. An open with \<open>unique\<close> set is to retire the open event of the same key, with a
  callback call flagged \<^verbatim>\<open>LATENCY_TRACKER_CB_UNIQUE\<close>, and then to succeed. The code does
  not get that far. \<^verbatim>\<open>latency_tracker_event_in\<close> takes \<^verbatim>\<open>tracker->lock\<close> and calls
  \<^verbatim>\<open>wrapper_ht_unique_check\<close> with the lock held; the check flags the duplicate, calls
  its callback and calls \<^verbatim>\<open>latency_tracker_event_destroy\<close>, which takes the same lock
  again. The close path releases the lock around that call; this path does not. Run on
  the example: on the tracker of one record, \<open>key1\<close> is opened, and opened again with
  \<open>unique\<close> set. The second open reaches \<^verbatim>\<open>latency_tracker_event_destroy\<close> in the state
  \<open>trk_evicting\<close>, where the callback 7 has been called with the flag set, the lock is
  held and the event is still in the table; the call does not return, and neither does
  the open. (\<^verbatim>\<open>wrapper_ht_unique_check\<close> entered with the lock free would evict the event
  and leave \<open>trk_evicted\<close>.)
\<close>
theorem unique_open_never_returns:
  "latency_tracker_create env0 2 True None None 1 0 0 0 = Some trk_cap1
   \<and> latency_tracker_event_in env0 (Some trk_cap1) key1 4 6 (Some 7) 0 0 0 100
       = Inr (LATENCY_TRACKER_OK, Some trk_full)
   \<and> spin_lock_irqsave trk_full = Inr (trk_full\<lparr>lock := True\<rparr>)
   \<and> call_cb_if_set
        ((trk_full\<lparr>lock := True\<rparr>)\<lparr>mem := (mem trk_full)
            (0 := (mem trk_full 0)\<lparr>cb_flag := LATENCY_TRACKER_CB_UNIQUE\<rparr>)\<rparr>) 0
       = trk_evicting
   \<and> cb_log trk_evicting
       = [(7, 0, (example_event key1 1 100 6 7)\<lparr>cb_flag := LATENCY_TRACKER_CB_UNIQUE\<rparr>)]
   \<and> lock trk_evicting
   \<and> ht trk_evicting = [[], [0]]
   \<and> latency_tracker_event_destroy trk_evicting 0 = Inl Deadlock
   \<and> wrapper_ht_unique_check env0 (trk_full\<lparr>lock := True\<rparr>) key1 4 = Inl Deadlock
   \<and> latency_tracker_event_in env0 (Some trk_full) key1 4 6 (Some 8) 0 1 0 200 = Inl Deadlock
   \<and> wrapper_ht_unique_check env0 trk_full key1 4 = Inr trk_evicted"
proof -
  have "latency_tracker_event_in env0 (Some trk_full) key1 4 6 (Some 8) 0 1 0 200
          = Inl Deadlock"
    and "wrapper_ht_unique_check env0 (trk_full\<lparr>lock := True\<rparr>) key1 4 = Inl Deadlock"
    and "wrapper_ht_unique_check env0 trk_full key1 4 = Inr trk_evicted"
    and "latency_tracker_event_destroy trk_evicting 0 = Inl Deadlock"
    and "spin_lock_irqsave trk_full = Inr (trk_full\<lparr>lock := True\<rparr>)"
    and "call_cb_if_set
        ((trk_full\<lparr>lock := True\<rparr>)\<lparr>mem := (mem trk_full)
            (0 := (mem trk_full 0)\<lparr>cb_flag := LATENCY_TRACKER_CB_UNIQUE\<rparr>)\<rparr>) 0
       = trk_evicting"
    by (simp_all add: run_defs ex_defs fun_eq_iff)
  then show ?thesis
    using create_trk_cap1 open_trk_cap1
    by (simp add: trk_evicting_def example_tracker_def)
qed

subsection \<open>Destroying the tracker\<close>

text \<open>
  C8. \<^verbatim>\<open>latency_tracker_destroy\<close> on a well-formed tracker with N events in its table
  returns and reports N, retires all of them (the table is empty afterwards and the N
  records are on the free list) and calls no callback. In particular, after a tracker
  was created and N opens succeeded with nothing retired in between, destroy reports
  exactly N and the trace of callback calls is empty.
\<close>
theorem destroy_counts_pending:
  "(tracker_inv t \<longrightarrow>
      (\<exists>t'. latency_tracker_destroy t = Inr (int (length (concat (ht t))), t')
         \<and> concat (ht t') = []
         \<and> events_free_list t' = rev (concat (ht t)) @ events_free_list t
         \<and> cb_log t' = cb_log t))
   \<and> (latency_tracker_create env allocs module_ok match_arg hash_arg max_events period thr pr
         = Some t0
       \<and> opens_ok env t0 cs = Some tn \<longrightarrow>
      (\<exists>t'. latency_tracker_destroy tn = Inr (int (length cs), t') \<and> cb_log t' = []))"
proof (intro conjI impI)
  assume inv: "tracker_inv t"
  note d = destroy_eq [OF inv]
  have "ht (retire_all (concat (ht t)) (t\<lparr>gc_timer := False\<rparr>)) = map (\<lambda>_. []) (ht t)"
    using retire_all_concat_ht [of "t\<lparr>gc_timer := False\<rparr>"] by simp
  then show "\<exists>t'. latency_tracker_destroy t = Inr (int (length (concat (ht t))), t')
         \<and> concat (ht t') = []
         \<and> events_free_list t' = rev (concat (ht t)) @ events_free_list t
         \<and> cb_log t' = cb_log t"
    unfolding d by (simp add: retire_all_def)
next
  assume a: "latency_tracker_create env allocs module_ok match_arg hash_arg max_events period
               thr pr = Some t0 \<and> opens_ok env t0 cs = Some tn"
  then have cr: "latency_tracker_create env allocs module_ok match_arg hash_arg max_events
               period thr pr = Some t0" and ops: "opens_ok env t0 cs = Some tn"
    by simp_all
  note c = create_props [OF cr]
  have ne: "ht t0 \<noteq> []" and ul0: "\<not> lock t0" using c(1) by (simp_all add: tracker_inv_def)
  from opens_ok_effect [OF ops ul0] c ne
  have inv: "tracker_inv tn" and len: "length (concat (ht tn)) = length cs"
    and log: "cb_log tn = []"
    by simp_all
  note d = destroy_eq [OF inv]
  show "\<exists>t'. latency_tracker_destroy tn = Inr (int (length cs), t') \<and> cb_log t' = []"
    unfolding d by (simp add: retire_all_def log len)
qed

theorem destroy_counts_pending_witness:
  "tracker_inv trk_two
   \<and> latency_tracker_create env0 4 True None None 3 0 0 0 = Some trk_new3
   \<and> opens_ok env0 trk_new3 [call1, call2] = Some trk_two
   \<and> (\<exists>t'. latency_tracker_destroy trk_two = Inr (2, t')
          \<and> concat (ht t') = []
          \<and> events_free_list t' = [0, 1, 2]
          \<and> cb_log t' = [])"
proof -
  have v1: "int (length (concat (ht trk_two))) = 2"
    and v2: "rev (concat (ht trk_two)) @ events_free_list trk_two = [0, 1, 2]"
    and v3: "cb_log trk_two = []"
    by (simp_all add: ex_defs)
  from destroy_counts_pending [of trk_two env0 4 True None None 3 0 0 0 trk_new3
      "[call1, call2]" trk_two] inv_trk_two create_trk_new3 opens_trk_new3
  have "\<exists>t'. latency_tracker_destroy trk_two = Inr (2, t')
          \<and> concat (ht t') = []
          \<and> events_free_list t' = [0, 1, 2]
          \<and> cb_log t' = []"
    unfolding v1 v2 v3 by blast
  then show ?thesis
    using inv_trk_two create_trk_new3 opens_trk_new3 by blast
qed

subsection \<open>Rejected calls\<close>

text \<open>
  C9. A call of \<^verbatim>\<open>latency_tracker_event_in\<close> whose \<open>key_len\<close> is strictly greater than
  \<^verbatim>\<open>LATENCY_TRACKER_MAX_KEY_SIZE\<close> returns \<^verbatim>\<open>LATENCY_TRACKER_ERR\<close> (the spec's INVALID)
  and hands back the tracker exactly as it was: no record leaves the free list, nothing
  enters the hash table, no timer is armed in any record, and the trace of callback
  calls is unchanged.
\<close>
theorem oversized_key_rejected:
  assumes "key_len > LATENCY_TRACKER_MAX_KEY_SIZE env"
  shows "latency_tracker_event_in env tracker k key_len thr f tmo unique pr now
           = Inr (LATENCY_TRACKER_ERR, tracker)"
  using assms by (simp add: latency_tracker_event_in_def split: option.splits)

theorem oversized_key_rejected_witness:
  "(17::nat) > LATENCY_TRACKER_MAX_KEY_SIZE env0
   \<and> latency_tracker_event_in env0 (Some trk_two) key1 17 5 (Some 7) 3 1 0 1000
       = Inr (LATENCY_TRACKER_ERR, Some trk_two)"
proof -
  have big: "(17::nat) > LATENCY_TRACKER_MAX_KEY_SIZE env0"
    by (simp add: env0_def)
  show ?thesis
    using big oversized_key_rejected [OF big] by simp
qed

text \<open>
  C10. With a NULL tracker, \<^verbatim>\<open>latency_tracker_event_in\<close> returns
  \<^verbatim>\<open>LATENCY_TRACKER_ERR\<close> and \<^verbatim>\<open>latency_tracker_event_out\<close> returns -1, the value it also
  returns when nothing was found. Neither result depends on any tracker state, and none
  is produced: the tracker is not read and no pool or index is changed.
\<close>
theorem null_tracker_rejected:
  "latency_tracker_event_in env None k key_len thr f tmo unique pr now
     = Inr (LATENCY_TRACKER_ERR, None)
   \<and> latency_tracker_event_out env None k key_len out_id now = Inr (- 1, None)"
  by (simp add: latency_tracker_event_in_def latency_tracker_event_out_def)

end
